theory Spec2Isabelle
  imports Main "HOL-Library.Word" "HOL-Library.Code_Target_Numeral"
begin

unbundle bit_operations_syntax

text \<open>
  A model of the class \<open>AsyncBaseCache\<close> of node-cache (\<open>src/async-base-cache.ts\<close>): the
  key normalization \<open>buildKey\<close>, the public methods, and the default batch methods built on
  the five primitives of a backend. The class rests on JavaScript's strings, plain objects,
  \<open>JSON\<close> and promises, on lodash's \<open>forEach\<close> and on MD5 from Node's \<open>crypto\<close>; the first
  sections model those, as far as the class uses them.
\<close>

section \<open>Strings, digits and bytes\<close>

text \<open>
  A JavaScript string is a sequence of UTF-16 code units and \<open>key.length\<close> counts them.
  The model represents a string as an Isabelle \<open>string\<close> (a list of 8-bit characters) and
  reads every character as the code unit of the same number, so it covers the strings whose
  code units are below 256; \<open>length\<close> is then the \<open>.length\<close> of the source.
\<close>

definition hex_digit :: "nat \<Rightarrow> char" where
  "hex_digit n = (''0123456789abcdef'' ! (n mod 16))"


definition hex_byte :: "nat \<Rightarrow> string" where
  "hex_byte b = [hex_digit (b div 16), hex_digit b]"

definition is_digit :: "char \<Rightarrow> bool" where
  "is_digit c = (c \<in> set ''0123456789'')"

definition digit_char :: "nat \<Rightarrow> char" where
  "digit_char n = (''0123456789'' ! (n mod 10))"

definition digit_val :: "char \<Rightarrow> nat" where
  "digit_val c = of_char c - 48"

text \<open>The decimal digits of a natural number, most significant first.\<close>

fun dec_nat :: "nat \<Rightarrow> string" where
  "dec_nat n = (if n < 10 then [digit_char n] else dec_nat (n div 10) @ [digit_char n])"

declare dec_nat.simps [simp del]

definition dec_int :: "int \<Rightarrow> string" where
  "dec_int i = (if i < 0 then CHR ''-'' # dec_nat (nat (- i)) else dec_nat (nat i))"

definition nat_of_digits :: "string \<Rightarrow> nat" where
  "nat_of_digits s = foldl (\<lambda>n c. 10 * n + digit_val c) 0 s"

text \<open>
  \<open>hash.update(string)\<close> of Node's \<open>crypto\<close> hashes the UTF-8 encoding of the string: a
  code unit below 128 is one byte, one from 128 to 255 is two bytes.
\<close>

definition utf8_unit :: "char \<Rightarrow> nat list" where
  "utf8_unit c = (let n = (of_char c :: nat) in
     if n < 128 then [n] else [192 + n div 64, 128 + n mod 64])"

definition utf8 :: "string \<Rightarrow> nat list" where
  "utf8 s = concat (map utf8_unit s)"

section \<open>MD5 (RFC 1321), which \<open>crypto.createHash('md5')\<close> computes\<close>

type_synonym md5_state = "32 word \<times> 32 word \<times> 32 word \<times> 32 word"

definition md5_s :: "nat list" where
  "md5_s = [7, 12, 17, 22, 7, 12, 17, 22, 7, 12, 17, 22, 7, 12, 17, 22,
            5, 9, 14, 20, 5, 9, 14, 20, 5, 9, 14, 20, 5, 9, 14, 20,
            4, 11, 16, 23, 4, 11, 16, 23, 4, 11, 16, 23, 4, 11, 16, 23,
            6, 10, 15, 21, 6, 10, 15, 21, 6, 10, 15, 21, 6, 10, 15, 21]"

definition md5_K :: "32 word list" where
  "md5_K = [0xd76aa478, 0xe8c7b756, 0x242070db, 0xc1bdceee,
            0xf57c0faf, 0x4787c62a, 0xa8304613, 0xfd469501,
            0x698098d8, 0x8b44f7af, 0xffff5bb1, 0x895cd7be,
            0x6b901122, 0xfd987193, 0xa679438e, 0x49b40821,
            0xf61e2562, 0xc040b340, 0x265e5a51, 0xe9b6c7aa,
            0xd62f105d, 0x02441453, 0xd8a1e681, 0xe7d3fbc8,
            0x21e1cde6, 0xc33707d6, 0xf4d50d87, 0x455a14ed,
            0xa9e3e905, 0xfcefa3f8, 0x676f02d9, 0x8d2a4c8a,
            0xfffa3942, 0x8771f681, 0x6d9d6122, 0xfde5380c,
            0xa4beea44, 0x4bdecfa9, 0xf6bb4b60, 0xbebfbc70,
            0x289b7ec6, 0xeaa127fa, 0xd4ef3085, 0x04881d05,
            0xd9d4d039, 0xe6db99e5, 0x1fa27cf8, 0xc4ac5665,
            0xf4292244, 0x432aff97, 0xab9423a7, 0xfc93a039,
            0x655b59c3, 0x8f0ccc92, 0xffeff47d, 0x85845dd1,
            0x6fa87e4f, 0xfe2ce6e0, 0xa3014314, 0x4e0811a1,
            0xf7537e82, 0xbd3af235, 0x2ad7d2bb, 0xeb86d391]"

definition md5_init :: md5_state where
  "md5_init = (0x67452301, 0xefcdab89, 0x98badcfe, 0x10325476)"

text \<open>The little-endian bytes of a number, and the number of little-endian bytes.\<close>

definition le_bytes :: "nat \<Rightarrow> nat \<Rightarrow> nat list" where
  "le_bytes k n = map (\<lambda>i. (n div 256 ^ i) mod 256) [0..<k]"

definition le_nat :: "nat list \<Rightarrow> nat" where
  "le_nat bs = foldr (\<lambda>b n. b + 256 * n) bs 0"

text \<open>
  Padding: one byte 0x80, zero bytes up to 56 modulo 64, then the length of the message in
  bits as 8 little-endian bytes (modulo \<open>2 ^ 64\<close>).
\<close>

definition md5_pad :: "nat list \<Rightarrow> nat list" where
  "md5_pad bs = (let n = length bs in
     bs @ [128] @ replicate ((119 - n mod 64) mod 64) 0 @ le_bytes 8 ((8 * n) mod 2 ^ 64))"

definition md5_blocks :: "nat list \<Rightarrow> 32 word list list" where
  "md5_blocks bs =
     map (\<lambda>i. map (\<lambda>j. of_nat (le_nat (take 4 (drop (64 * i + 4 * j) bs)))) [0..<16])
       [0..<length bs div 64]"

definition md5_step :: "32 word list \<Rightarrow> nat \<Rightarrow> md5_state \<Rightarrow> md5_state" where
  "md5_step M i = (\<lambda>(A, B, C, D).
     let (F, g) =
       (if i < 16 then ((B AND C) OR (NOT B AND D), i)
        else if i < 32 then ((D AND B) OR (NOT D AND C), (5 * i + 1) mod 16)
        else if i < 48 then (B XOR C XOR D, (3 * i + 5) mod 16)
        else (C XOR (B OR NOT D), (7 * i) mod 16))
     in (D, B + word_rotl (md5_s ! i) (F + A + md5_K ! i + M ! g), B, C))"

definition md5_block :: "32 word list \<Rightarrow> md5_state \<Rightarrow> md5_state" where
  "md5_block M = (\<lambda>(a0, b0, c0, d0).
     case fold (md5_step M) [0..<64] (a0, b0, c0, d0) of
       (A, B, C, D) \<Rightarrow> (a0 + A, b0 + B, c0 + C, d0 + D))"

definition md5 :: "nat list \<Rightarrow> md5_state" where
  "md5 bs = fold md5_block (md5_blocks (md5_pad bs)) md5_init"

text \<open>\<open>digest('hex')\<close>: the four state words, each as 4 little-endian bytes, in lowercase hex.\<close>

definition md5_digest_hex :: "md5_state \<Rightarrow> string" where
  "md5_digest_hex = (\<lambda>(a, b, c, d).
     concat (map hex_byte (concat (map (\<lambda>w. le_bytes 4 (unat w)) [a, b, c, d]))))"

text \<open>\<open>mb5\<close> of the source: \<open>crypto.createHash('md5').update(data).digest('hex')\<close>.\<close>

definition mb5 :: "string \<Rightarrow> string" where
  "mb5 data = md5_digest_hex (md5 (utf8 data))"

section \<open>JavaScript values\<close>

text \<open>
  The source is typed \<open>any\<close> for keys and values. The model covers the JSON data among the
  JavaScript values: \<open>null\<close>, the booleans, the numbers that are safe integers
  (\<open>\<bar>n\<bar> \<le> 2^53 - 1\<close>, with \<open>-0\<close> read as \<open>0\<close>), strings, arrays and plain objects. A plain
  object is the list of its own enumerable properties in enumeration order. \<open>undefined\<close>,
  functions, symbols, other numbers and objects of other classes are outside the model.
\<close>

datatype jsvalue =
    JNull
  | JBool bool
  | JNum int
  | JStr string
  | JArr "jsvalue list"
  | JObj "(string \<times> jsvalue) list"

text \<open>
  What the source can raise or reject with. \<open>Unmodelled\<close> is no error of the source: the
  model returns it where the source continues with a value outside the model, and no theorem
  says what the source does there.
\<close>

datatype error = SyntaxError | Rejected string | Unmodelled

definition dquote :: char where
  "dquote = CHR 0x22"

definition backslash :: char where
  "backslash = CHR 0x5C"

fun join :: "string \<Rightarrow> string list \<Rightarrow> string" where
  "join sep [] = []"
| "join sep [x] = x"
| "join sep (x # y # ys) = x @ sep @ join sep (y # ys)"

text \<open>
  \<open>ToString\<close>, which a property access \<open>obj[key]\<close> and \<open>JSON.parse\<close> apply to an argument
  that is no string. \<open>Array.prototype.join\<close> renders \<open>null\<close> as the empty string.
\<close>

fun js_toString :: "jsvalue \<Rightarrow> string" where
  "js_toString JNull = ''null''"
| "js_toString (JBool b) = (if b then ''true'' else ''false'')"
| "js_toString (JNum i) = dec_int i"
| "js_toString (JStr s) = s"
| "js_toString (JArr vs) = join '','' (map (\<lambda>v. if v = JNull then [] else js_toString v) vs)"
| "js_toString (JObj ps) = ''[object Object]''"

subsection \<open>Plain objects used as dictionaries\<close>

text \<open>
  The source keeps its dictionaries (\<open>keyMap\<close>, \<open>results\<close>, \<open>data\<close>) in plain objects. Own
  properties enumerate with the array indices first, in ascending order, and then the other
  names in the order of their creation (\<open>OrdinaryOwnPropertyKeys\<close>); lodash's \<open>_.values\<close>
  and \<open>_.forEach\<close> follow that order.
\<close>

type_synonym 'v jsobj = "(string \<times> 'v) list"

definition is_array_index :: "string \<Rightarrow> bool" where
  "is_array_index s =
     (s \<noteq> [] \<and> list_all is_digit s \<and> (s = ''0'' \<or> hd s \<noteq> CHR ''0'') \<and> length s \<le> 10 \<and>
      nat_of_digits s \<le> 4294967294)"

fun obj_insert_index :: "string \<Rightarrow> 'v \<Rightarrow> 'v jsobj \<Rightarrow> 'v jsobj" where
  "obj_insert_index k v [] = [(k, v)]"
| "obj_insert_index k v ((k', v') # ps) =
     (if is_array_index k' \<and> nat_of_digits k' < nat_of_digits k
      then (k', v') # obj_insert_index k v ps
      else (k, v) # (k', v') # ps)"

text \<open>\<open>CreateDataProperty\<close>: an existing own property keeps its place and takes the value.\<close>

definition obj_define :: "'v jsobj \<Rightarrow> string \<Rightarrow> 'v \<Rightarrow> 'v jsobj" where
  "obj_define ob k v =
     (if k \<in> fst ` set ob then map (\<lambda>(k', v'). if k' = k then (k', v) else (k', v')) ob
      else if is_array_index k then obj_insert_index k v ob
      else ob @ [(k, v)])"

text \<open>
  The assignment \<open>ob[k] = v\<close>. On an object that has no own property \<open>__proto__\<close> the
  assignment to that name reaches the setter of \<open>Object.prototype\<close> and creates no property.
  (For a value that is an object the setter replaces the prototype of \<open>ob\<close>; the model does
  not follow what \<open>ob\<close> inherits after that.)
\<close>

definition obj_put :: "'v jsobj \<Rightarrow> string \<Rightarrow> 'v \<Rightarrow> 'v jsobj" where
  "obj_put ob k v = (if k = ''__proto__'' \<and> k \<notin> fst ` set ob then ob else obj_define ob k v)"

text \<open>
  The read \<open>ob[k]\<close>: the own property, else a member that every plain object inherits from
  \<open>Object.prototype\<close>, else \<open>undefined\<close>.
\<close>

datatype 'v property = Own 'v | Inherited | Absent

definition object_prototype_names :: "string list" where
  "object_prototype_names =
     [''constructor'', ''__defineGetter__'', ''__defineSetter__'', ''hasOwnProperty'',
      ''__lookupGetter__'', ''__lookupSetter__'', ''isPrototypeOf'', ''propertyIsEnumerable'',
      ''toString'', ''valueOf'', ''__proto__'', ''toLocaleString'']"

definition obj_get :: "'v jsobj \<Rightarrow> string \<Rightarrow> 'v property" where
  "obj_get ob k =
     (case map_of ob k of
        Some v \<Rightarrow> Own v
      | None \<Rightarrow> if k \<in> set object_prototype_names then Inherited else Absent)"

text \<open>
  lodash's \<open>isArrayLike\<close> on a plain object: an own property \<open>length\<close> that is a number from
  0 to \<open>2^53 - 1\<close>. \<open>_.forEach\<close> walks such an object by index, not by property.
\<close>

definition isArrayLike :: "jsvalue jsobj \<Rightarrow> bool" where
  "isArrayLike ob =
     (case map_of ob ''length'' of
        Some (JNum n) \<Rightarrow> 0 \<le> n \<and> n \<le> 9007199254740991
      | _ \<Rightarrow> False)"

subsection \<open>\<open>JSON.stringify\<close>\<close>

definition quote_unit :: "char \<Rightarrow> string" where
  "quote_unit c =
     (if c = CHR 0x08 then [backslash, CHR ''b'']
      else if c = CHR 0x09 then [backslash, CHR ''t'']
      else if c = CHR 0x0A then [backslash, CHR ''n'']
      else if c = CHR 0x0C then [backslash, CHR ''f'']
      else if c = CHR 0x0D then [backslash, CHR ''r'']
      else if c = dquote then [backslash, dquote]
      else if c = backslash then [backslash, backslash]
      else if (of_char c :: nat) < 32 then backslash # ''u00'' @ hex_byte (of_char c)
      else [c])"

definition quote :: "string \<Rightarrow> string" where
  "quote s = dquote # concat (map quote_unit s) @ [dquote]"

fun JSON_stringify :: "jsvalue \<Rightarrow> string" where
  "JSON_stringify JNull = ''null''"
| "JSON_stringify (JBool b) = (if b then ''true'' else ''false'')"
| "JSON_stringify (JNum i) = dec_int i"
| "JSON_stringify (JStr s) = quote s"
| "JSON_stringify (JArr vs) = ''['' @ join '','' (map JSON_stringify vs) @ '']''"
| "JSON_stringify (JObj ps) =
     ''{'' @ join '','' (map (\<lambda>p. quote (fst p) @ '':'' @ JSON_stringify (snd p)) ps) @ ''}''"

subsection \<open>\<open>JSON.parse\<close>\<close>

definition is_ws :: "char \<Rightarrow> bool" where
  "is_ws c = (c = CHR 0x20 \<or> c = CHR 0x09 \<or> c = CHR 0x0A \<or> c = CHR 0x0D)"

definition skip_ws :: "string \<Rightarrow> string" where
  "skip_ws s = dropWhile is_ws s"

definition hex_val :: "char \<Rightarrow> nat option" where
  "hex_val c =
     (let n = (of_char c :: nat) in
      if 48 \<le> n \<and> n \<le> 57 then Some (n - 48)
      else if 97 \<le> n \<and> n \<le> 102 then Some (n - 87)
      else if 65 \<le> n \<and> n \<le> 70 then Some (n - 55)
      else None)"

definition unescape :: "char \<Rightarrow> char option" where
  "unescape e =
     (if e = dquote then Some dquote
      else if e = backslash then Some backslash
      else if e = CHR ''/'' then Some (CHR ''/'')
      else if e = CHR ''b'' then Some (CHR 0x08)
      else if e = CHR ''f'' then Some (CHR 0x0C)
      else if e = CHR ''n'' then Some (CHR 0x0A)
      else if e = CHR ''r'' then Some (CHR 0x0D)
      else if e = CHR ''t'' then Some (CHR 0x09)
      else None)"

definition cons_char :: "char \<Rightarrow> error + (string \<times> string) \<Rightarrow> error + (string \<times> string)" where
  "cons_char c r = (case r of Inl e \<Rightarrow> Inl e | Inr (s, rest) \<Rightarrow> Inr (c # s, rest))"

text \<open>
  The characters of a string literal after its opening quote, up to the closing quote. An
  escape \<open>\u\<close> of a code unit above 255 is outside the model.
\<close>

fun parse_chars :: "string \<Rightarrow> error + (string \<times> string)" where
  "parse_chars [] = Inl SyntaxError"
| "parse_chars (c # cs) =
     (if c = dquote then Inr ([], cs)
      else if c = backslash then
        (case cs of
           [] \<Rightarrow> Inl SyntaxError
         | e # r \<Rightarrow>
             if e = CHR ''u'' then
               (case r of
                  h1 # h2 # h3 # h4 # r' \<Rightarrow>
                    (case (hex_val h1, hex_val h2, hex_val h3, hex_val h4) of
                       (Some a, Some b, Some c', Some d) \<Rightarrow>
                         if a = 0 \<and> b = 0 then cons_char (char_of (16 * c' + d)) (parse_chars r')
                         else Inl Unmodelled
                     | _ \<Rightarrow> Inl SyntaxError)
                | _ \<Rightarrow> Inl SyntaxError)
             else
               (case unescape e of
                  None \<Rightarrow> Inl SyntaxError
                | Some d \<Rightarrow> cons_char d (parse_chars r)))
      else if (of_char c :: nat) < 32 then Inl SyntaxError
      else cons_char c (parse_chars cs))"

text \<open>
  A number token. A digit after a leading zero is a syntax error wherever the token stands.
  A fraction, an exponent or an integer beyond the safe range is outside the model.
\<close>

definition parse_number :: "string \<Rightarrow> error + (jsvalue \<times> string)" where
  "parse_number s =
     (let neg = (s \<noteq> [] \<and> hd s = CHR ''-'');
          s1 = (if neg then tl s else s);
          ds = takeWhile is_digit s1;
          r = dropWhile is_digit s1
      in if ds = [] then Inl SyntaxError
         else if hd ds = CHR ''0'' \<and> 1 < length ds then Inl SyntaxError
         else if r \<noteq> [] \<and> hd r \<in> set ''.eE'' then Inl Unmodelled
         else if 9007199254740991 < nat_of_digits ds then Inl Unmodelled
         else Inr (JNum (if neg then - int (nat_of_digits ds) else int (nat_of_digits ds)), r))"

definition expect :: "string \<Rightarrow> jsvalue \<Rightarrow> string \<Rightarrow> error + (jsvalue \<times> string)" where
  "expect w v s = (if take (length w) s = w then Inr (v, drop (length w) s) else Inl SyntaxError)"

text \<open>
  The recursive descent of \<open>JSON.parse\<close>, on a counter that bounds the calls still allowed.
  Every nested call follows at least one consumed character, and \<open>JSON_parse\<close> below
  starts the counter at twice the length of the text plus two.
\<close>

fun parse_value :: "nat \<Rightarrow> string \<Rightarrow> error + (jsvalue \<times> string)"
  and parse_elements :: "nat \<Rightarrow> string \<Rightarrow> error + (jsvalue list \<times> string)"
  and parse_members :: "nat \<Rightarrow> string \<Rightarrow> error + ((string \<times> jsvalue) list \<times> string)"
where
  "parse_value 0 s = Inl Unmodelled"
| "parse_value (Suc n) s =
     (case skip_ws s of
        [] \<Rightarrow> Inl SyntaxError
      | c # r \<Rightarrow>
          if c = CHR ''n'' then expect ''ull'' JNull r
          else if c = CHR ''t'' then expect ''rue'' (JBool True) r
          else if c = CHR ''f'' then expect ''alse'' (JBool False) r
          else if c = dquote then
            (case parse_chars r of Inl e \<Rightarrow> Inl e | Inr (str, r') \<Rightarrow> Inr (JStr str, r'))
          else if c = CHR ''['' then
            (case skip_ws r of
               [] \<Rightarrow> Inl SyntaxError
             | c' # r' \<Rightarrow>
                 if c' = CHR '']'' then Inr (JArr [], r')
                 else (case parse_elements n r of
                         Inl e \<Rightarrow> Inl e
                       | Inr (vs, r'') \<Rightarrow> Inr (JArr vs, r'')))
          else if c = CHR ''{'' then
            (case skip_ws r of
               [] \<Rightarrow> Inl SyntaxError
             | c' # r' \<Rightarrow>
                 if c' = CHR ''}'' then Inr (JObj [], r')
                 else (case parse_members n r of
                         Inl e \<Rightarrow> Inl e
                       | Inr (ps, r'') \<Rightarrow>
                           Inr (JObj (fold (\<lambda>(k, v) ob. obj_define ob k v) ps []), r'')))
          else if c = CHR ''-'' \<or> is_digit c then parse_number (c # r)
          else Inl SyntaxError)"
| "parse_elements 0 s = Inl Unmodelled"
| "parse_elements (Suc n) s =
     (case parse_value n s of
        Inl e \<Rightarrow> Inl e
      | Inr (v, r) \<Rightarrow>
          (case skip_ws r of
             [] \<Rightarrow> Inl SyntaxError
           | c # r' \<Rightarrow>
               if c = CHR '','' then
                 (case parse_elements n r' of
                    Inl e \<Rightarrow> Inl e
                  | Inr (vs, r'') \<Rightarrow> Inr (v # vs, r''))
               else if c = CHR '']'' then Inr ([v], r')
               else Inl SyntaxError))"
| "parse_members 0 s = Inl Unmodelled"
| "parse_members (Suc n) s =
     (case skip_ws s of
        [] \<Rightarrow> Inl SyntaxError
      | c # r \<Rightarrow>
          if c \<noteq> dquote then Inl SyntaxError
          else
            (case parse_chars r of
               Inl e \<Rightarrow> Inl e
             | Inr (k, r1) \<Rightarrow>
                 (case skip_ws r1 of
                    [] \<Rightarrow> Inl SyntaxError
                  | c1 # r2 \<Rightarrow>
                      if c1 \<noteq> CHR '':'' then Inl SyntaxError
                      else
                        (case parse_value n r2 of
                           Inl e \<Rightarrow> Inl e
                         | Inr (v, r3) \<Rightarrow>
                             (case skip_ws r3 of
                                [] \<Rightarrow> Inl SyntaxError
                              | c3 # r4 \<Rightarrow>
                                  if c3 = CHR '','' then
                                    (case parse_members n r4 of
                                       Inl e \<Rightarrow> Inl e
                                     | Inr (ps, r5) \<Rightarrow> Inr ((k, v) # ps, r5))
                                  else if c3 = CHR ''}'' then Inr ([(k, v)], r4)
                                  else Inl SyntaxError)))))"

text \<open>
  \<open>JSON.parse(x)\<close>: the argument is converted to a string, the text is one value between
  optional white space.
\<close>

definition JSON_parse :: "jsvalue \<Rightarrow> error + jsvalue" where
  "JSON_parse x =
     (let s = js_toString x in
      case parse_value (2 * length s + 2) s of
        Inl e \<Rightarrow> Inl e
      | Inr (v, r) \<Rightarrow> if skip_ws r = [] then Inr v else Inl SyntaxError)"

section \<open>The class \<open>AsyncBaseCache\<close>\<close>

text \<open>
  The object \<open>this\<close>: the two configuration fields of the base class, and in the extension
  of the record whatever state a subclass keeps (its connection, its store).
\<close>

record cache =
  keyPrefix :: string
  serialization :: bool

text \<open>
  An \<open>async\<close> method takes the object and gives what its promise settles with (\<open>Inl\<close> when
  it rejects) and the object afterwards. An \<open>await\<close> in a method body is the sequencing of
  these state transformers; what the body reads from \<open>this\<close> after an \<open>await\<close> it reads from
  the object the awaited call left.
\<close>

type_synonym ('r, 'a) async = "'a cache_scheme \<Rightarrow> (error + 'r) \<times> 'a cache_scheme"

text \<open>
  What a batch writer returns is an array object. The caller holds the array with the
  contents it has when the method returns; callbacks that are suspended at that moment hold
  it too and push onto it when they resume. \<open>failedKeys\<close> are the contents at the return and
  \<open>waiting\<close> the callbacks suspended then, each with its key and the outcome its promise
  settles with. An array that nothing changes any more has no waiting callback.
\<close>

datatype suspended = Suspended string "error + bool"

record failed_list =
  failedKeys :: "string list"
  waiting :: "suspended list"

text \<open>
  The protected methods: five abstract ones that a subclass implements, and three batch
  methods that a subclass may override. The source types the cached value of \<open>getValue\<close> and
  \<open>setValue\<close> as \<open>string\<close> (or \<open>false\<close>); \<open>set\<close> passes a value of type \<open>any\<close> through when
  serialization is off, so the model lets any value cross.
\<close>

record 'a primitives =
  getValue :: "string \<Rightarrow> (jsvalue, 'a) async"
  setValue :: "string \<Rightarrow> jsvalue \<Rightarrow> int \<Rightarrow> (bool, 'a) async"
  addValue :: "string \<Rightarrow> jsvalue \<Rightarrow> int \<Rightarrow> (bool, 'a) async"
  deleteValue :: "string \<Rightarrow> (bool, 'a) async"
  flushValues :: "(bool, 'a) async"

record 'a backend = "'a primitives" +
  getValues :: "string list \<Rightarrow> (jsvalue jsobj, 'a) async"
  setValues :: "jsvalue jsobj \<Rightarrow> int \<Rightarrow> (failed_list, 'a) async"
  addValues :: "jsvalue jsobj \<Rightarrow> int \<Rightarrow> (failed_list, 'a) async"

subsection \<open>Public methods\<close>

definition buildKey :: "'a cache_scheme \<Rightarrow> jsvalue \<Rightarrow> string" where
  "buildKey this key =
     (let key' = (case key of
                    JStr s \<Rightarrow> if length s \<le> 32 then s else mb5 s
                  | _ \<Rightarrow> mb5 (JSON_stringify key))
      in keyPrefix this @ key')"

definition get :: "'a backend \<Rightarrow> jsvalue \<Rightarrow> (jsvalue, 'a) async" where
  "get B key this =
     (let key' = buildKey this key in
      case getValue B key' this of
        (Inl e, this') \<Rightarrow> (Inl e, this')
      | (Inr val, this') \<Rightarrow>
          if val = JBool False \<or> serialization this' = False then (Inr val, this')
          else (JSON_parse val, this'))"

text \<open>
  The callback of \<open>_.forEach(keyMap, ...)\<close> in \<open>multiGet\<close>, run over the entries of \<open>keyMap\<close>.
  A storage key that names a member of \<open>Object.prototype\<close> and is no own property of
  \<open>values\<close> reads as that member: \<open>JSON.parse\<close> of it is a syntax error, and without
  serialization the result holds a value outside the model.
\<close>

fun multiGet_forEach ::
  "'a cache_scheme \<Rightarrow> jsvalue jsobj \<Rightarrow> string jsobj \<Rightarrow> jsvalue jsobj \<Rightarrow> error + jsvalue jsobj"
where
  "multiGet_forEach this vals [] results = Inr results"
| "multiGet_forEach this vals ((key, newKey) # keyMap) results =
     (let results' = obj_put results key (JBool False) in
      case obj_get vals newKey of
        Absent \<Rightarrow> multiGet_forEach this vals keyMap results'
      | Own v \<Rightarrow>
          if \<not> serialization this then multiGet_forEach this vals keyMap (obj_put results' key v)
          else (case JSON_parse v of
                  Inl e \<Rightarrow> Inl e
                | Inr d \<Rightarrow> multiGet_forEach this vals keyMap (obj_put results' key d))
      | Inherited \<Rightarrow> if \<not> serialization this then Inl Unmodelled else Inl SyntaxError)"

text \<open>
  The first loop of \<open>multiGet\<close>: \<open>keyMap[key] = this.buildKey(key)\<close> converts \<open>key\<close> to a
  property name. The values of \<open>keyMap\<close> are strings, so lodash never takes it for an array.
\<close>

definition multiGet_keyMap :: "'a cache_scheme \<Rightarrow> jsvalue list \<Rightarrow> string jsobj" where
  "multiGet_keyMap this keys =
     fold (\<lambda>key keyMap. obj_put keyMap (js_toString key) (buildKey this key)) keys []"

definition multiGet :: "'a backend \<Rightarrow> jsvalue list \<Rightarrow> (jsvalue jsobj, 'a) async" where
  "multiGet B keys this =
     (let keyMap = multiGet_keyMap this keys
      in case getValues B (map snd keyMap) this of
           (Inl e, this') \<Rightarrow> (Inl e, this')
         | (Inr vals, this') \<Rightarrow> (multiGet_forEach this' vals keyMap [], this'))"

definition exists :: "'a backend \<Rightarrow> jsvalue \<Rightarrow> (bool, 'a) async" where
  "exists B key this =
     (let key' = buildKey this key in
      case getValue B key' this of
        (Inl e, this') \<Rightarrow> (Inl e, this')
      | (Inr val, this') \<Rightarrow> (Inr (val \<noteq> JBool False), this'))"

text \<open>\<open>set\<close> of the source; the name \<open>set\<close> is taken in HOL.\<close>

definition set_entry :: "'a backend \<Rightarrow> jsvalue \<Rightarrow> jsvalue \<Rightarrow> int \<Rightarrow> (bool, 'a) async" where
  "set_entry B key val duration this =
     (let key' = buildKey this key;
          val' = (if serialization this = True then JStr (JSON_stringify val) else val)
      in setValue B key' val' duration this)"

text \<open>
  The callback of \<open>_.forEach(items, ...)\<close> in \<open>multiSet\<close> and \<open>multiAdd\<close>. The keys of a
  mapping are property names, so \<open>buildKey\<close> receives a string. An \<open>items\<close> that lodash walks
  by index hands the callback \<open>undefined\<close> values, which are outside the model.
\<close>

definition items_forEach :: "'a cache_scheme \<Rightarrow> jsvalue jsobj \<Rightarrow> jsvalue jsobj" where
  "items_forEach this items =
     fold (\<lambda>(key, val) data.
             let val' = (if serialization this = True then JStr (JSON_stringify val) else val);
                 key' = buildKey this (JStr key)
             in obj_put data key' val') items []"

definition multiSet :: "'a backend \<Rightarrow> jsvalue jsobj \<Rightarrow> int \<Rightarrow> (failed_list, 'a) async" where
  "multiSet B items duration this =
     (if isArrayLike items then (Inl Unmodelled, this)
      else setValues B (items_forEach this items) duration this)"

definition add :: "'a backend \<Rightarrow> jsvalue \<Rightarrow> jsvalue \<Rightarrow> int \<Rightarrow> (bool, 'a) async" where
  "add B key val duration this =
     (let key' = buildKey this key;
          val' = (if serialization this = True then JStr (JSON_stringify val) else val)
      in addValue B key' val' duration this)"

definition multiAdd :: "'a backend \<Rightarrow> jsvalue jsobj \<Rightarrow> int \<Rightarrow> (failed_list, 'a) async" where
  "multiAdd B items duration this =
     (if isArrayLike items then (Inl Unmodelled, this)
      else addValues B (items_forEach this items) duration this)"

definition delete :: "'a backend \<Rightarrow> jsvalue \<Rightarrow> (bool, 'a) async" where
  "delete B key this = deleteValue B (buildKey this key) this"

definition flush :: "'a backend \<Rightarrow> (bool, 'a) async" where
  "flush B this = flushValues B this"

subsection \<open>The default batch methods\<close>

text \<open>\<open>getValues\<close>: the loop \<open>for (const key of keys) results[key] = await this.getValue(key)\<close>.\<close>

fun getValues_loop :: "('a, 'b) primitives_scheme \<Rightarrow> string list \<Rightarrow> jsvalue jsobj \<Rightarrow> (jsvalue jsobj, 'a) async" where
  "getValues_loop B [] results this = (Inr results, this)"
| "getValues_loop B (key # keys) results this =
     (case getValue B key this of
        (Inl e, this') \<Rightarrow> (Inl e, this')
      | (Inr val, this') \<Rightarrow> getValues_loop B keys (obj_put results key val) this')"

definition getValues_default :: "('a, 'b) primitives_scheme \<Rightarrow> string list \<Rightarrow> (jsvalue jsobj, 'a) async" where
  "getValues_default B keys this = getValues_loop B keys [] this"

text \<open>
  \<open>setValues\<close> and \<open>addValues\<close> hand \<open>_.forEach\<close> an \<open>async\<close> callback. lodash calls it for
  every entry and drops the promise it returns. Each call runs the callback up to its
  \<open>await\<close>: it calls \<open>setValue\<close> and is suspended on the promise; what follows the \<open>await\<close>
  (the test of the outcome and \<open>failedKeys.push(key)\<close>) is a job that the event loop runs
  once the promise has settled, never before the running code has returned. The calls take
  effect on the object in the order in which they are made.
\<close>

definition write_callback ::
  "(string \<Rightarrow> jsvalue \<Rightarrow> int \<Rightarrow> (bool, 'a) async) \<Rightarrow> int \<Rightarrow> string \<times> jsvalue \<Rightarrow>
   failed_list \<times> 'a cache_scheme \<Rightarrow> failed_list \<times> 'a cache_scheme"
where
  "write_callback write duration = (\<lambda>(key, val) (arr, this).
     case write key val duration this of
       (outcome, this') \<Rightarrow> (arr\<lparr>waiting := waiting arr @ [Suspended key outcome]\<rparr>, this'))"

definition write_forEach ::
  "(string \<Rightarrow> jsvalue \<Rightarrow> int \<Rightarrow> (bool, 'a) async) \<Rightarrow> jsvalue jsobj \<Rightarrow> int \<Rightarrow>
   'a cache_scheme \<Rightarrow> failed_list \<times> 'a cache_scheme"
where
  "write_forEach write data duration this =
     fold (write_callback write duration) data (\<lparr>failedKeys = [], waiting = []\<rparr>, this)"

text \<open>\<open>return failedKeys\<close> follows \<open>_.forEach\<close> at once: the method returns the array as it is then.\<close>

definition setValues_default ::
  "('a, 'b) primitives_scheme \<Rightarrow> jsvalue jsobj \<Rightarrow> int \<Rightarrow> (failed_list, 'a) async"
where
  "setValues_default P data duration this =
     (if isArrayLike data then (Inl Unmodelled, this)
      else case write_forEach (setValue P) data duration this of
             (arr, this') \<Rightarrow> (Inr arr, this'))"

definition addValues_default ::
  "('a, 'b) primitives_scheme \<Rightarrow> jsvalue jsobj \<Rightarrow> int \<Rightarrow> (failed_list, 'a) async"
where
  "addValues_default P data duration this =
     (if isArrayLike data then (Inl Unmodelled, this)
      else case write_forEach (addValue P) data duration this of
             (arr, this') \<Rightarrow> (Inr arr, this'))"

text \<open>
  The rest of a callback, when its promise has settled: a rejection ends the callback (its
  own promise rejects, unhandled), \<open>false\<close> pushes the key.
\<close>

definition resume :: "suspended \<Rightarrow> string list \<Rightarrow> string list" where
  "resume j failed =
     (case j of Suspended key outcome \<Rightarrow> if outcome = Inr False then failed @ [key] else failed)"

text \<open>The contents of the array once every waiting callback has run, in the order of the calls.\<close>

definition settled :: "failed_list \<Rightarrow> string list" where
  "settled arr = fold resume (waiting arr) (failedKeys arr)"

text \<open>A subclass that implements the five abstract methods and overrides nothing.\<close>

definition plain_subclass :: "'a primitives \<Rightarrow> 'a backend" where
  "plain_subclass P =
     \<lparr>getValue = getValue P, setValue = setValue P, addValue = addValue P,
      deleteValue = deleteValue P, flushValues = flushValues P,
      getValues = getValues_default P,
      setValues = setValues_default P,
      addValues = addValues_default P\<rparr>"

section \<open>A backend in memory\<close>

text \<open>
  Modelled from the spec: a backend that meets the primitive contract of section 4.5, for
  the examples below. The concrete backends of the repository are not among its sources
  here. The store maps a storage key to the value kept under it; no entry expires, so the
  duration is ignored. Absence is \<open>false\<close>.
\<close>

record mem_cache = cache +
  store :: "string \<rightharpoonup> jsvalue"

definition mem_getValue :: "string \<Rightarrow> (jsvalue, unit mem_cache_ext) async" where
  "mem_getValue key this =
     (Inr (case store this key of None \<Rightarrow> JBool False | Some v \<Rightarrow> v), this)"

definition mem_setValue :: "string \<Rightarrow> jsvalue \<Rightarrow> int \<Rightarrow> (bool, unit mem_cache_ext) async" where
  "mem_setValue key val duration this = (Inr True, this\<lparr>store := (store this)(key \<mapsto> val)\<rparr>)"

definition mem_addValue :: "string \<Rightarrow> jsvalue \<Rightarrow> int \<Rightarrow> (bool, unit mem_cache_ext) async" where
  "mem_addValue key val duration this =
     (if store this key = None then (Inr True, this\<lparr>store := (store this)(key \<mapsto> val)\<rparr>)
      else (Inr False, this))"

definition mem_deleteValue :: "string \<Rightarrow> (bool, unit mem_cache_ext) async" where
  "mem_deleteValue key this = (Inr True, this\<lparr>store := (store this)(key := None)\<rparr>)"

definition mem_flushValues :: "(bool, unit mem_cache_ext) async" where
  "mem_flushValues this = (Inr True, this\<lparr>store := Map.empty\<rparr>)"

definition memory :: "unit mem_cache_ext backend" where
  "memory = plain_subclass
     \<lparr>getValue = mem_getValue, setValue = mem_setValue, addValue = mem_addValue,
      deleteValue = mem_deleteValue, flushValues = mem_flushValues\<rparr>"

text \<open>An empty cache with the default configuration of the class.\<close>

definition empty_cache :: mem_cache where
  "empty_cache = \<lparr>keyPrefix = [], serialization = True, store = Map.empty\<rparr>"

section \<open>Terms of the specification\<close>



text \<open>What \<open>get\<close> makes of the value \<open>v\<close> that \<open>getValue\<close> returned, on the object \<open>this\<close>.\<close>

definition decoded_as_get :: "'a cache_scheme \<Rightarrow> jsvalue \<Rightarrow> error + jsvalue" where
  "decoded_as_get this v =
     (if v = JBool False \<or> serialization this = False then Inr v else JSON_parse v)"

text \<open>A method leaves the two configuration fields as they were.\<close>

definition keeps_config :: "('r, 'a) async \<Rightarrow> bool" where
  "keeps_config m =
     (\<forall>this. keyPrefix (snd (m this)) = keyPrefix this \<and>
             serialization (snd (m this)) = serialization this)"

definition primitives_keep_config :: "('a, 'b) primitives_scheme \<Rightarrow> bool" where
  "primitives_keep_config P =
     ((\<forall>key. keeps_config (getValue P key)) \<and>
      (\<forall>key val duration. keeps_config (setValue P key val duration)) \<and>
      (\<forall>key val duration. keeps_config (addValue P key val duration)) \<and>
      (\<forall>key. keeps_config (deleteValue P key)) \<and>
      keeps_config (flushValues P))"

definition backend_keeps_config :: "'a backend \<Rightarrow> bool" where
  "backend_keeps_config B =
     (primitives_keep_config B \<and>
      (\<forall>keys. keeps_config (getValues B keys)) \<and>
      (\<forall>data duration. keeps_config (setValues B data duration)) \<and>
      (\<forall>data duration. keeps_config (addValues B data duration)))"

text \<open>
  The part of the primitive contract (section 4.5) that a round trip rests on: a write that
  reports success is what the next read of that Storage Key returns.
\<close>

definition read_after_write :: "('a, 'b) primitives_scheme \<Rightarrow> bool" where
  "read_after_write P =
     (\<forall>key val duration this this'.
        setValue P key val duration this = (Inr True, this') \<longrightarrow>
        fst (getValue P key this') = Inr val)"

text \<open>A value is JSON-encodable when its encoding decodes to the value again.\<close>

definition json_encodable :: "jsvalue \<Rightarrow> bool" where
  "json_encodable v = (JSON_parse (JStr (JSON_stringify v)) = Inr v)"

text \<open>
  The values of the model that a JavaScript program can hold, which are the JSON-encodable
  ones: every number is a safe integer, and the properties of every object stand in the
  order in which JavaScript enumerates them, each name once, the array indices first and
  ascending.
\<close>

definition js_precedes :: "string \<Rightarrow> string \<Rightarrow> bool" where
  "js_precedes k k' =
     (k \<noteq> k' \<and> (is_array_index k' \<longrightarrow> is_array_index k \<and> nat_of_digits k < nat_of_digits k'))"

fun representable :: "jsvalue \<Rightarrow> bool" where
  "representable (JNum i) = (\<bar>i\<bar> \<le> 9007199254740991)"
| "representable (JArr vs) = (\<forall>v \<in> set vs. representable v)"
| "representable (JObj ps) =
     (sorted_wrt js_precedes (map fst ps) \<and> (\<forall>p \<in> set ps. representable (snd p)))"
| "representable v = True"

text \<open>
  Where a number token may end: at the end of the text or before a character that is no
  digit and starts no fraction or exponent. The characters a JSON value may start with.
\<close>

definition number_ends :: "string \<Rightarrow> bool" where
  "number_ends r = (r = [] \<or> (\<not> is_digit (hd r) \<and> hd r \<notin> set ''.eE''))"

definition value_start :: "char \<Rightarrow> bool" where
  "value_start c =
     (c = CHR ''n'' \<or> c = CHR ''t'' \<or> c = CHR ''f'' \<or> c = dquote \<or> c = CHR ''['' \<or> c = CHR ''{'' \<or>
      c = CHR ''-'' \<or> is_digit c)"

section \<open>The digest\<close>

lemma length_le_bytes: "length (le_bytes k n) = k"
  by (simp add: le_bytes_def)

lemma length_concat_hex_byte: "length (concat (map hex_byte bs)) = 2 * length bs"
  by (induction bs) (simp_all add: hex_byte_def)

lemma length_mb5: "length (mb5 data) = 32"
  by (simp add: mb5_def md5_digest_hex_def length_concat_hex_byte length_le_bytes split: prod.split)




section \<open>Plain objects\<close>

lemma set_obj_insert_index: "set (obj_insert_index k v ob) = insert (k, v) (set ob)"
  by (induction ob) (auto split: if_splits)

lemma set_obj_define_subset: "set (obj_define ob k v) \<subseteq> insert (k, v) (set ob)"
  by (auto simp add: obj_define_def set_obj_insert_index split: if_splits)

lemma map_fst_replace:
  "map fst (map (\<lambda>(k', v'). if k' = k then (k', v) else (k', v')) ob) = map fst ob"
  by (induction ob) (auto split: if_splits)

lemma keys_obj_define: "fst ` set (obj_define ob k v) = insert k (fst ` set ob)"
proof (cases "k \<in> fst ` set ob")
  case True
  have "set (map fst (map (\<lambda>(k', v'). if k' = k then (k', v) else (k', v')) ob)) = set (map fst ob)"
    by (simp only: map_fst_replace)
  then have "fst ` set (map (\<lambda>(k', v'). if k' = k then (k', v) else (k', v')) ob) = fst ` set ob"
    by (simp only: set_map)
  with True show ?thesis by (auto simp add: obj_define_def)
next
  case False
  then show ?thesis by (simp add: obj_define_def set_obj_insert_index)
qed

lemma distinct_obj_insert_index:
  "k \<notin> fst ` set ob \<Longrightarrow> distinct (map fst ob) \<Longrightarrow> distinct (map fst (obj_insert_index k v ob))"
  by (induction ob) (auto simp add: set_obj_insert_index)

lemma distinct_obj_define:
  assumes "distinct (map fst ob)"
  shows "distinct (map fst (obj_define ob k v))"
proof (cases "k \<in> fst ` set ob")
  case True
  then have "map fst (obj_define ob k v) = map fst ob"
    by (simp only: obj_define_def if_True map_fst_replace)
  with assms show ?thesis by simp
next
  case False
  with assms show ?thesis by (simp add: obj_define_def distinct_obj_insert_index)
qed

lemma map_of_replace_same:
  "k \<in> fst ` set ob \<Longrightarrow>
   map_of (map (\<lambda>(k', v'). if k' = k then (k', v) else (k', v')) ob) k = Some v"
  by (induction ob) auto

lemma map_of_replace_other:
  "k'' \<noteq> k \<Longrightarrow>
   map_of (map (\<lambda>(k', v'). if k' = k then (k', v) else (k', v')) ob) k'' = map_of ob k''"
  by (induction ob) auto

lemma map_of_obj_insert_index:
  "k \<notin> fst ` set ob \<Longrightarrow> map_of (obj_insert_index k v ob) = (map_of ob)(k \<mapsto> v)"
  by (induction ob) (auto simp add: fun_eq_iff)

lemma map_of_snoc:
  "k \<notin> fst ` set ob \<Longrightarrow> [k \<mapsto> v] ++ map_of ob = (map_of ob)(k \<mapsto> v)"
proof -
  assume "k \<notin> fst ` set ob"
  then have "map_of ob k = None" by (simp add: map_of_eq_None_iff)
  then show ?thesis by (auto simp add: fun_eq_iff map_add_def split: option.splits)
qed

lemma map_of_obj_define: "map_of (obj_define ob k v) = (map_of ob)(k \<mapsto> v)"
proof (cases "k \<in> fst ` set ob")
  case True
  then show ?thesis
    by (auto simp add: obj_define_def map_of_replace_same map_of_replace_other fun_eq_iff)
next
  case False
  then show ?thesis by (simp add: obj_define_def map_of_obj_insert_index map_of_snoc)
qed

lemma set_obj_put_subset: "set (obj_put ob k v) \<subseteq> insert (k, v) (set ob)"
  using set_obj_define_subset [of ob k v] by (auto simp add: obj_put_def)

lemma keys_obj_put:
  "''__proto__'' \<notin> fst ` set ob \<Longrightarrow>
   fst ` set (obj_put ob k v) = (if k = ''__proto__'' then fst ` set ob else insert k (fst ` set ob))"
  by (simp add: obj_put_def keys_obj_define)

lemma distinct_obj_put: "distinct (map fst ob) \<Longrightarrow> distinct (map fst (obj_put ob k v))"
  by (simp add: obj_put_def distinct_obj_define)

lemma map_of_obj_put:
  "k \<noteq> ''__proto__'' \<Longrightarrow> map_of (obj_put ob k v) = (map_of ob)(k \<mapsto> v)"
  by (simp add: obj_put_def map_of_obj_define)

lemma map_of_obj_put_other:
  "k' \<noteq> k \<Longrightarrow> map_of (obj_put ob k v) k' = map_of ob k'"
  by (simp add: obj_put_def map_of_obj_define)

section \<open>Key normalization\<close>




text \<open>
  C4. For a string Cache Key of at most 32 characters, \<open>buildKey\<close> returns the configured
  \<open>keyPrefix\<close> followed by the key itself, unchanged and unhashed.
\<close>

theorem buildKey_short_string:
  "length s \<le> 32 \<Longrightarrow> buildKey this (JStr s) = keyPrefix this @ s"
  by (simp add: buildKey_def)

theorem buildKey_short_string_witness:
  "length ''user:42'' \<le> 32 \<and>
   buildKey (empty_cache\<lparr>keyPrefix := ''app''\<rparr>) (JStr ''user:42'') = ''appuser:42''"
  using buildKey_short_string [of "''user:42''" "empty_cache\<lparr>keyPrefix := ''app''\<rparr>"]
  by (simp add: empty_cache_def)



section \<open>Reads\<close>

lemma plain_subclass_simps [simp]:
  "getValue (plain_subclass P) = getValue P" "setValue (plain_subclass P) = setValue P"
  "addValue (plain_subclass P) = addValue P" "deleteValue (plain_subclass P) = deleteValue P"
  "flushValues (plain_subclass P) = flushValues P"
  "getValues (plain_subclass P) = getValues_default P"
  "setValues (plain_subclass P) = setValues_default P"
  "addValues (plain_subclass P) = addValues_default P"
  by (simp_all add: plain_subclass_def)

lemma memory_simps [simp]:
  "getValue memory = mem_getValue" "setValue memory = mem_setValue"
  "addValue memory = mem_addValue" "deleteValue memory = mem_deleteValue"
  "flushValues memory = mem_flushValues"
  by (simp_all add: memory_def plain_subclass_def)

lemma get_absent:
  "fst (getValue B (buildKey this key) this) = Inr (JBool False) \<Longrightarrow>
   fst (get B key this) = Inr (JBool False)"
  by (auto simp add: get_def split: prod.splits sum.splits)

text \<open>
  C6. When \<open>getValue\<close> returns the absence sentinel \<open>false\<close>, \<open>get\<close> returns the sentinel as it
  is, whatever the serialization flag: nothing is decoded and the object is as \<open>getValue\<close>
  left it.
\<close>

theorem get_absent_undecoded:
  "fst (getValue B (buildKey this key) this) = Inr (JBool False) \<Longrightarrow>
   fst (get B key this) = Inr (JBool False) \<and>
   snd (get B key this) = snd (getValue B (buildKey this key) this)"
  by (auto simp add: get_def split: prod.splits sum.splits)

theorem get_absent_undecoded_witness:
  "fst (getValue memory (buildKey empty_cache (JStr ''missing'')) empty_cache) = Inr (JBool False) \<and>
   serialization empty_cache \<and>
   fst (get memory (JStr ''missing'') empty_cache) = Inr (JBool False)"
  using get_absent_undecoded [of memory empty_cache "JStr ''missing''"]
  by (simp add: mem_getValue_def empty_cache_def)

subsection \<open>The default \<open>getValues\<close>\<close>








subsection \<open>\<open>multiGet\<close>\<close>


lemma JSON_parse_false: "JSON_parse (JBool False) = Inr (JBool False)"
  by code_simp

lemma JSON_parse_text_false: "JSON_parse (JStr ''false'') = Inr (JBool False)"
  by code_simp

lemma mb5_not_proto: "mb5 x \<noteq> ''__proto__''"
proof
  assume "mb5 x = ''__proto__''"
  then have "length (mb5 x) = length ''__proto__''" by (rule arg_cong)
  then show False by (simp add: length_mb5)
qed

lemma mb5_not_index: "\<not> is_array_index (mb5 x)"
  by (simp add: is_array_index_def length_mb5)

lemma keyMap_fold_keys:
  "''__proto__'' \<notin> fst ` set km \<Longrightarrow>
   fst ` set (fold (\<lambda>key keyMap. obj_put keyMap (js_toString key) (buildKey this key)) keys km) =
     fst ` set km \<union> (js_toString ` set keys - {''__proto__''})"
proof (induction keys arbitrary: km)
  case Nil
  then show ?case by simp
next
  case (Cons key keys)
  let ?km = "obj_put km (js_toString key) (buildKey this key)"
  have keys: "fst ` set ?km =
      (if js_toString key = ''__proto__'' then fst ` set km else insert (js_toString key) (fst ` set km))"
    using Cons.prems by (rule keys_obj_put)
  then have "''__proto__'' \<notin> fst ` set ?km" using Cons.prems by (auto split: if_splits)
  from Cons.IH [OF this] keys show ?case by (auto split: if_splits)
qed

lemma keyMap_fold_distinct:
  "distinct (map fst km) \<Longrightarrow>
   distinct (map fst (fold (\<lambda>key keyMap. obj_put keyMap (js_toString key) (buildKey this key)) keys km))"
  by (induction keys arbitrary: km) (simp_all add: distinct_obj_put)

lemma keyMap_fold_origin:
  "(\<forall>(key, newKey) \<in> set km. \<exists>k \<in> K. js_toString k = key \<and> newKey = buildKey this k) \<Longrightarrow>
   set keys \<subseteq> K \<Longrightarrow>
   (\<forall>(key, newKey) \<in> set (fold (\<lambda>key keyMap. obj_put keyMap (js_toString key) (buildKey this key)) keys km).
      \<exists>k \<in> K. js_toString k = key \<and> newKey = buildKey this k)"
proof (induction keys arbitrary: km)
  case Nil
  then show ?case by simp
next
  case (Cons key keys)
  let ?km = "obj_put km (js_toString key) (buildKey this key)"
  from Cons.prems(2) have "key \<in> K" by simp
  with Cons.prems(1) set_obj_put_subset [of km "js_toString key" "buildKey this key"]
  have "\<forall>(key, newKey) \<in> set ?km. \<exists>k \<in> K. js_toString k = key \<and> newKey = buildKey this k"
    by auto
  moreover from Cons.prems(2) have "set keys \<subseteq> K" by simp
  ultimately show ?case using Cons.IH [of ?km] by simp
qed

lemma multiGet_keyMap_keys:
  "fst ` set (multiGet_keyMap this keys) = js_toString ` set keys - {''__proto__''}"
  using keyMap_fold_keys [of "[]" this keys] by (simp add: multiGet_keyMap_def)

lemma multiGet_keyMap_distinct: "distinct (map fst (multiGet_keyMap this keys))"
  using keyMap_fold_distinct [of "[]" this keys] by (simp add: multiGet_keyMap_def)

lemma multiGet_keyMap_origin:
  "\<forall>(key, newKey) \<in> set (multiGet_keyMap this keys).
     \<exists>k \<in> set keys. js_toString k = key \<and> newKey = buildKey this k"
  using keyMap_fold_origin [of "[]" "set keys" this keys] by (simp add: multiGet_keyMap_def)


lemma replace_id:
  "(\<forall>v'. (k, v') \<in> set ob \<longrightarrow> v' = v) \<Longrightarrow>
   map (\<lambda>(k', v'). if k' = k then (k', v) else (k', v')) ob = ob"
  by (induction ob) auto

lemma replace_value:
  "(k, v') \<in> set (map (\<lambda>(k', v'). if k' = k then (k', v) else (k', v')) ob) \<Longrightarrow> v' = v"
  by (auto split: if_splits)

lemma obj_define_value: "(k, v') \<in> set (obj_define ob k v) \<Longrightarrow> v' = v"
proof (cases "k \<in> fst ` set ob")
  case True
  assume "(k, v') \<in> set (obj_define ob k v)"
  with True have "(k, v') \<in> set (map (\<lambda>(k', v'). if k' = k then (k', v) else (k', v')) ob)"
    by (simp add: obj_define_def)
  then show ?thesis by (rule replace_value)
next
  case False
  assume "(k, v') \<in> set (obj_define ob k v)"
  with set_obj_define_subset [of ob k v] have "(k, v') = (k, v) \<or> (k, v') \<in> set ob" by blast
  with False show ?thesis by (auto simp add: image_iff)
qed

lemma obj_define_twice: "obj_define (obj_define ob k v) k v = obj_define ob k v"
proof -
  have "k \<in> fst ` set (obj_define ob k v)" by (simp add: keys_obj_define)
  then have "obj_define (obj_define ob k v) k v =
      map (\<lambda>(k', v'). if k' = k then (k', v) else (k', v')) (obj_define ob k v)"
    by (simp add: obj_define_def)
  also have "\<dots> = obj_define ob k v"
    by (rule replace_id) (blast dest: obj_define_value)
  finally show ?thesis .
qed

lemma obj_put_twice: "obj_put (obj_put ob k v) k v = obj_put ob k v"
  by (auto simp add: obj_put_def obj_define_twice keys_obj_define)

lemma multiGet_forEach_step:
  assumes "multiGet_forEach this vals ((key, newKey) # keyMap) results = Inr final"
  obtains d where
    "multiGet_forEach this vals keyMap (obj_put (obj_put results key (JBool False)) key d) = Inr final"
    "case obj_get vals newKey of
       Absent \<Rightarrow> d = JBool False
     | Own v \<Rightarrow> decoded_as_get this v = Inr d
     | Inherited \<Rightarrow> False"
proof (cases "obj_get vals newKey")
  case Absent
  have same: "obj_put (obj_put results key (JBool False)) key (JBool False) = obj_put results key (JBool False)"
    by (rule obj_put_twice)
  from assms Absent show ?thesis
    by (intro that [of "JBool False"]) (simp_all add: same)
next
  case (Own v)
  show ?thesis
  proof (cases "serialization this")
    case False
    with assms Own show ?thesis
      by (intro that [of v]) (simp_all add: decoded_as_get_def)
  next
    case True
    with assms Own obtain d where d: "JSON_parse v = Inr d"
      and rest: "multiGet_forEach this vals keyMap (obj_put (obj_put results key (JBool False)) key d) = Inr final"
      by (auto split: sum.splits)
    from d have "decoded_as_get this v = Inr d"
      using True JSON_parse_false by (auto simp add: decoded_as_get_def)
    with rest Own show ?thesis by (intro that [of d]) simp_all
  qed
next
  case Inherited
  with assms show ?thesis by (simp split: if_splits)
qed


lemma multiGet_forEach_keys:
  "multiGet_forEach this vals keyMap results = Inr final \<Longrightarrow>
   ''__proto__'' \<notin> fst ` set results \<Longrightarrow>
   fst ` set final = fst ` set results \<union> (fst ` set keyMap - {''__proto__''})"
proof (induction keyMap arbitrary: results)
  case Nil
  then show ?case by simp
next
  case (Cons p keyMap)
  obtain key newKey where p: "p = (key, newKey)" by (cases p)
  from Cons.prems(1) [unfolded p] obtain d where
    rest: "multiGet_forEach this vals keyMap (obj_put (obj_put results key (JBool False)) key d) = Inr final"
    by (rule multiGet_forEach_step)
  let ?R = "obj_put (obj_put results key (JBool False)) key d"
  have one: "fst ` set (obj_put results key (JBool False)) =
      (if key = ''__proto__'' then fst ` set results else insert key (fst ` set results))"
    using Cons.prems(2) by (rule keys_obj_put)
  then have "''__proto__'' \<notin> fst ` set (obj_put results key (JBool False))"
    using Cons.prems(2) by (auto split: if_splits)
  then have two: "fst ` set ?R =
      (if key = ''__proto__'' then fst ` set (obj_put results key (JBool False))
       else insert key (fst ` set (obj_put results key (JBool False))))"
    by (rule keys_obj_put)
  from one two Cons.prems(2) have "''__proto__'' \<notin> fst ` set ?R" by (auto split: if_splits)
  from Cons.IH [OF rest this] one two show ?case unfolding p by (auto split: if_splits)
qed

lemma multiGet_forEach_distinct:
  "multiGet_forEach this vals keyMap results = Inr final \<Longrightarrow>
   distinct (map fst results) \<Longrightarrow> distinct (map fst final)"
proof (induction keyMap arbitrary: results)
  case Nil
  then show ?case by simp
next
  case (Cons p keyMap)
  obtain key newKey where p: "p = (key, newKey)" by (cases p)
  from Cons.prems(1) [unfolded p] obtain d where
    rest: "multiGet_forEach this vals keyMap (obj_put (obj_put results key (JBool False)) key d) = Inr final"
    by (rule multiGet_forEach_step)
  from Cons.prems(2) have "distinct (map fst (obj_put (obj_put results key (JBool False)) key d))"
    by (intro distinct_obj_put)
  with rest show ?case by (rule Cons.IH)
qed

lemma multiGet_forEach_untouched:
  "multiGet_forEach this vals keyMap results = Inr final \<Longrightarrow>
   k \<notin> fst ` set keyMap \<Longrightarrow> map_of final k = map_of results k"
proof (induction keyMap arbitrary: results)
  case Nil
  then show ?case by simp
next
  case (Cons p keyMap)
  obtain key newKey where p: "p = (key, newKey)" by (cases p)
  from Cons.prems(1) [unfolded p] obtain d where
    rest: "multiGet_forEach this vals keyMap (obj_put (obj_put results key (JBool False)) key d) = Inr final"
    by (rule multiGet_forEach_step)
  from Cons.prems(2) p have "k \<noteq> key" and "k \<notin> fst ` set keyMap" by auto
  from Cons.IH [OF rest this(2)] \<open>k \<noteq> key\<close> show ?case
    by (simp add: map_of_obj_put_other)
qed

lemma multiGet_forEach_entries:
  "multiGet_forEach this vals keyMap results = Inr final \<Longrightarrow>
   distinct (map fst keyMap) \<Longrightarrow> ''__proto__'' \<notin> fst ` set keyMap \<Longrightarrow>
   (\<forall>(key, newKey) \<in> set keyMap.
      case obj_get vals newKey of
        Absent \<Rightarrow> map_of final key = Some (JBool False)
      | Own v \<Rightarrow> (\<exists>d. map_of final key = Some d \<and> decoded_as_get this v = Inr d)
      | Inherited \<Rightarrow> False)"
proof (induction keyMap arbitrary: results)
  case Nil
  then show ?case by simp
next
  case (Cons p keyMap)
  obtain key newKey where p: "p = (key, newKey)" by (cases p)
  from Cons.prems(1) [unfolded p] obtain d where
    rest: "multiGet_forEach this vals keyMap (obj_put (obj_put results key (JBool False)) key d) = Inr final"
    and d: "case obj_get vals newKey of
       Absent \<Rightarrow> d = JBool False
     | Own v \<Rightarrow> decoded_as_get this v = Inr d
     | Inherited \<Rightarrow> False"
    by (rule multiGet_forEach_step)
  from Cons.prems(2,3) p have fresh: "key \<notin> fst ` set keyMap" and "key \<noteq> ''__proto__''"
    and dist: "distinct (map fst keyMap)" and np: "''__proto__'' \<notin> fst ` set keyMap"
    by auto
  from multiGet_forEach_untouched [OF rest fresh] \<open>key \<noteq> ''__proto__''\<close>
  have "map_of final key = Some d" by (simp add: map_of_obj_put)
  with d have here: "case obj_get vals newKey of
        Absent \<Rightarrow> map_of final key = Some (JBool False)
      | Own v \<Rightarrow> (\<exists>d. map_of final key = Some d \<and> decoded_as_get this v = Inr d)
      | Inherited \<Rightarrow> False"
    by (simp split: property.splits)
  from Cons.IH [OF rest dist np] here show ?case unfolding p by simp
qed

lemma get_decoded:
  "get B key this =
     (case getValue B (buildKey this key) this of
        (Inl e, this') \<Rightarrow> (Inl e, this')
      | (Inr v, this') \<Rightarrow> (decoded_as_get this' v, this'))"
  by (simp add: get_def decoded_as_get_def split: prod.splits sum.splits)

text \<open>
  C3, as amended. \<open>multiGet\<close> returns a mapping keyed by the property names of the Cache
  Keys, which is the key itself for a string, its decimal text for a number and
  \<open>[object Object]\<close> for every plain object, with exactly one entry per distinct name
  (\<open>__proto__\<close> apart). The entry of a name is decided by the Storage Key of a Cache Key with
  that name: the sentinel \<open>false\<close> when the batch result has no value under the Storage Key,
  and else the value decoded or passed through as \<open>get\<close> does it.
\<close>

theorem multiGet_entries:
  assumes "multiGet B keys this = (Inr results, this')"
  shows "distinct (map fst results) \<and>
         fst ` set results = js_toString ` set keys - {''__proto__''} \<and>
         (\<exists>vals. getValues B (map snd (multiGet_keyMap this keys)) this = (Inr vals, this') \<and>
            (\<forall>(key, newKey) \<in> set (multiGet_keyMap this keys).
               (\<exists>k \<in> set keys. js_toString k = key \<and> newKey = buildKey this k) \<and>
               (case obj_get vals newKey of
                  Absent \<Rightarrow> map_of results key = Some (JBool False)
                | Own v \<Rightarrow> (\<exists>d. map_of results key = Some d \<and> decoded_as_get this' v = Inr d)
                | Inherited \<Rightarrow> False)))"
proof -
  let ?keyMap = "multiGet_keyMap this keys"
  from assms obtain vals where
    batch: "getValues B (map snd ?keyMap) this = (Inr vals, this')" and
    each: "multiGet_forEach this' vals ?keyMap [] = Inr results"
    by (auto simp add: multiGet_def Let_def split: prod.splits sum.splits)
  have np: "''__proto__'' \<notin> fst ` set ?keyMap" by (simp add: multiGet_keyMap_keys)
  have "distinct (map fst results)"
    using multiGet_forEach_distinct [OF each] by simp
  moreover have "fst ` set results = js_toString ` set keys - {''__proto__''}"
    using multiGet_forEach_keys [OF each] multiGet_keyMap_keys [of this keys] by auto
  moreover have "\<forall>(key, newKey) \<in> set ?keyMap.
       (\<exists>k \<in> set keys. js_toString k = key \<and> newKey = buildKey this k) \<and>
       (case obj_get vals newKey of
          Absent \<Rightarrow> map_of results key = Some (JBool False)
        | Own v \<Rightarrow> (\<exists>d. map_of results key = Some d \<and> decoded_as_get this' v = Inr d)
        | Inherited \<Rightarrow> False)"
    using multiGet_keyMap_origin [of this keys]
      multiGet_forEach_entries [OF each multiGet_keyMap_distinct np]
    by auto
  ultimately show ?thesis using batch by blast
qed


lemma JSON_parse_text_2: "JSON_parse (JStr ''2'') = Inr (JNum 2)"
  by code_simp

theorem multiGet_entries_witness:
  "multiGet memory [JStr ''a'', JStr ''b''] (empty_cache\<lparr>store := [''b'' \<mapsto> JStr ''2'']\<rparr>) =
     (Inr [(''a'', JBool False), (''b'', JNum 2)], empty_cache\<lparr>store := [''b'' \<mapsto> JStr ''2'']\<rparr>) \<and>
   distinct (map fst [(''a'', JBool False), (''b'', JNum 2)]) \<and>
   fst ` set [(''a'', JBool False), (''b'', JNum 2)] =
     js_toString ` set [JStr ''a'', JStr ''b''] - {''__proto__''}"
proof -
  have run: "multiGet memory [JStr ''a'', JStr ''b''] (empty_cache\<lparr>store := [''b'' \<mapsto> JStr ''2'']\<rparr>) =
     (Inr [(''a'', JBool False), (''b'', JNum 2)], empty_cache\<lparr>store := [''b'' \<mapsto> JStr ''2'']\<rparr>)"
    by (simp add: multiGet_def multiGet_keyMap_def buildKey_def memory_def
        getValues_default_def mem_getValue_def empty_cache_def obj_put_def obj_define_def obj_get_def
        is_array_index_def is_digit_def JSON_parse_false JSON_parse_text_2)
  from multiGet_entries [OF run] run show ?thesis by simp
qed

text \<open>
  C3 as stated fails for structured keys: two distinct objects share the property name
  \<open>[object Object]\<close>, and the mapping has one entry for the two.
\<close>

theorem multiGet_collapses_structured_keys:
  "JObj [(''a'', JNum 1)] \<noteq> JObj [(''b'', JNum 2)] \<and>
   fst (multiGet memory [JObj [(''a'', JNum 1)], JObj [(''b'', JNum 2)]] empty_cache) =
     Inr [(''[object Object]'', JBool False)]"
  by (simp add: multiGet_def multiGet_keyMap_def buildKey_def memory_def
        getValues_default_def mem_getValue_def empty_cache_def obj_put_def obj_define_def obj_get_def
        is_array_index_def is_digit_def JSON_parse_false length_mb5 mb5_not_proto)


section \<open>The configuration fields\<close>

lemma snd_get: "snd (get B key this) = snd (getValue B (buildKey this key) this)"
  by (simp add: get_def split: prod.splits sum.splits)

lemma snd_exists: "snd (exists B key this) = snd (getValue B (buildKey this key) this)"
  by (simp add: exists_def split: prod.splits sum.splits)

lemma snd_multiGet:
  "snd (multiGet B keys this) = snd (getValues B (map snd (multiGet_keyMap this keys)) this)"
  by (simp add: multiGet_def Let_def split: prod.splits sum.splits)

lemma keeps_configD:
  "keeps_config m \<Longrightarrow>
   keyPrefix (snd (m this)) = keyPrefix this \<and> serialization (snd (m this)) = serialization this"
  by (simp add: keeps_config_def)

lemma keeps_config_getValues_loop:
  assumes "\<And>key. keeps_config (getValue P key)"
  shows "keyPrefix (snd (getValues_loop P keys results this)) = keyPrefix this \<and>
         serialization (snd (getValues_loop P keys results this)) = serialization this"
proof (induction keys arbitrary: results this)
  case Nil
  show ?case by simp
next
  case (Cons key keys)
  obtain r that where call: "getValue P key this = (r, that)" by (cases "getValue P key this")
  with keeps_configD [OF assms, of key this]
  have that: "keyPrefix that = keyPrefix this \<and> serialization that = serialization this" by simp
  show ?case
  proof (cases r)
    case (Inl e)
    with call that show ?thesis by simp
  next
    case (Inr val)
    with call that Cons.IH [of "obj_put results key val" that] show ?thesis by simp
  qed
qed

lemma keeps_config_write_fold:
  assumes "\<And>key val. keeps_config (write key val duration)"
  shows "keyPrefix (snd (fold (write_callback write duration) data (arr, this))) = keyPrefix this \<and>
         serialization (snd (fold (write_callback write duration) data (arr, this))) = serialization this"
proof (induction data arbitrary: arr this)
  case Nil
  show ?case by simp
next
  case (Cons p data)
  obtain key val where p: "p = (key, val)" by (cases p)
  obtain outcome that where call: "write key val duration this = (outcome, that)"
    by (cases "write key val duration this")
  with keeps_configD [OF assms, of key val this]
  have "keyPrefix that = keyPrefix this \<and> serialization that = serialization this" by simp
  with Cons.IH [of "arr\<lparr>waiting := waiting arr @ [Suspended key outcome]\<rparr>" that] call show ?case
    unfolding p by (simp add: write_callback_def)
qed

lemma failedKeys_write_fold:
  "failedKeys (fst (fold (write_callback write duration) data (arr, this))) = failedKeys arr"
proof (induction data arbitrary: arr this)
  case Nil
  show ?case by simp
next
  case (Cons p data)
  obtain key val where p: "p = (key, val)" by (cases p)
  obtain outcome that where call: "write key val duration this = (outcome, that)"
    by (cases "write key val duration this")
  with Cons.IH [of "arr\<lparr>waiting := waiting arr @ [Suspended key outcome]\<rparr>" that] show ?case
    unfolding p by (simp add: write_callback_def)
qed

lemma keeps_config_defaults:
  assumes "primitives_keep_config P"
  shows "keeps_config (getValues_default P keys)"
    and "keeps_config (setValues_default P data duration)"
    and "keeps_config (addValues_default P data duration)"
proof -
  from assms have g: "\<And>key. keeps_config (getValue P key)"
    and s: "\<And>key val. keeps_config (setValue P key val duration)"
    and a: "\<And>key val. keeps_config (addValue P key val duration)"
    by (simp_all add: primitives_keep_config_def)
  show "keeps_config (getValues_default P keys)"
    using keeps_config_getValues_loop [OF g]
    by (simp add: keeps_config_def getValues_default_def)
  show "keeps_config (setValues_default P data duration)"
    using keeps_config_write_fold [of "setValue P" duration data, OF s]
    by (simp add: keeps_config_def setValues_default_def write_forEach_def case_prod_beta)
  show "keeps_config (addValues_default P data duration)"
    using keeps_config_write_fold [of "addValue P" duration data, OF a]
    by (simp add: keeps_config_def addValues_default_def write_forEach_def case_prod_beta)
qed

lemma plain_subclass_keeps_config:
  "primitives_keep_config P \<Longrightarrow> backend_keeps_config (plain_subclass P)"
  by (simp add: backend_keeps_config_def keeps_config_defaults primitives_keep_config_def)

lemma memory_primitives_keep_config:
  "primitives_keep_config
     \<lparr>getValue = mem_getValue, setValue = mem_setValue, addValue = mem_addValue,
      deleteValue = mem_deleteValue, flushValues = mem_flushValues\<rparr>"
  by (simp add: primitives_keep_config_def keeps_config_def mem_getValue_def mem_setValue_def
      mem_addValue_def mem_deleteValue_def mem_flushValues_def)

lemma memory_keeps_config: "backend_keeps_config memory"
  unfolding memory_def by (rule plain_subclass_keeps_config) (rule memory_primitives_keep_config)

text \<open>
  C9. Every public method that returns an object leaves \<open>keyPrefix\<close> and \<open>serialization\<close> as
  they were, given that the protected methods it calls do: no public method assigns to a
  field. \<open>buildKey\<close> reads the object and returns a string only.
\<close>

theorem public_methods_keep_config:
  assumes "backend_keeps_config B"
  shows "keeps_config (get B key) \<and> keeps_config (multiGet B keys) \<and>
         keeps_config (exists B key) \<and> keeps_config (set_entry B key val duration) \<and>
         keeps_config (multiSet B items duration) \<and> keeps_config (add B key val duration) \<and>
         keeps_config (multiAdd B items duration) \<and> keeps_config (delete B key) \<and>
         keeps_config (flush B)"
proof -
  from assms have g: "\<And>key. keeps_config (getValue B key)"
    and s: "\<And>key val duration. keeps_config (setValue B key val duration)"
    and a: "\<And>key val duration. keeps_config (addValue B key val duration)"
    and d: "\<And>key. keeps_config (deleteValue B key)"
    and f: "keeps_config (flushValues B)"
    and gs: "\<And>keys. keeps_config (getValues B keys)"
    and ss: "\<And>data duration. keeps_config (setValues B data duration)"
    and as: "\<And>data duration. keeps_config (addValues B data duration)"
    by (simp_all add: backend_keeps_config_def primitives_keep_config_def)
  have "keeps_config (get B key)"
    using g by (simp add: keeps_config_def snd_get)
  moreover have "keeps_config (multiGet B keys)"
    using gs by (simp add: keeps_config_def snd_multiGet)
  moreover have "keeps_config (exists B key)"
    using g by (simp add: keeps_config_def snd_exists)
  moreover have "keeps_config (set_entry B key val duration)"
    using s by (simp add: keeps_config_def set_entry_def Let_def)
  moreover have "keeps_config (multiSet B items duration)"
    using ss by (simp add: keeps_config_def multiSet_def)
  moreover have "keeps_config (add B key val duration)"
    using a by (simp add: keeps_config_def add_def Let_def)
  moreover have "keeps_config (multiAdd B items duration)"
    using as by (simp add: keeps_config_def multiAdd_def)
  moreover have "keeps_config (delete B key)"
    using d by (simp add: keeps_config_def delete_def)
  moreover have "keeps_config (flush B)"
    using f by (simp add: keeps_config_def flush_def)
  ultimately show ?thesis by simp
qed

theorem public_methods_keep_config_witness:
  "backend_keeps_config memory \<and>
   keyPrefix (snd (multiSet memory [(''a'', JNum 1)] 0 (empty_cache\<lparr>keyPrefix := ''app''\<rparr>))) = ''app'' \<and>
   serialization (snd (multiSet memory [(''a'', JNum 1)] 0 (empty_cache\<lparr>keyPrefix := ''app''\<rparr>))) = True \<and>
   keyPrefix (snd (get memory (JStr ''a'') (empty_cache\<lparr>keyPrefix := ''app''\<rparr>))) = ''app''"
  using public_methods_keep_config
      [where B = memory and key = "JStr ''a''" and items = "[(''a'', JNum 1)]" and duration = 0]
    memory_keeps_config
  by (simp add: keeps_config_def empty_cache_def)


section \<open>\<open>JSON.parse\<close> after \<open>JSON.stringify\<close>\<close>

lemma digit_cases: "k < 10 \<Longrightarrow> k = 0 \<or> k = 1 \<or> k = 2 \<or> k = 3 \<or> k = 4 \<or> k = 5 \<or> k = 6 \<or> k = 7 \<or> k = 8 \<or> k = (9::nat)"
  by arith

lemma digit_val_digit_char: "digit_val (digit_char n) = n mod 10"
proof -
  have "n mod 10 < 10" by simp
  from digit_cases [OF this] show ?thesis
    by (auto simp add: digit_char_def digit_val_def)
qed

lemma is_digit_digit_char: "is_digit (digit_char n)"
proof -
  have "n mod 10 < 10" by simp
  from digit_cases [OF this] show ?thesis
    by (auto simp add: digit_char_def is_digit_def)
qed

lemma digit_char_zero: "digit_char n = CHR ''0'' \<Longrightarrow> n mod 10 = 0"
proof -
  assume z: "digit_char n = CHR ''0''"
  have "n mod 10 < 10" by simp
  from digit_cases [OF this] z show ?thesis
    by (auto simp add: digit_char_def)
qed

lemma dec_nat_small: "n < 10 \<Longrightarrow> dec_nat n = [digit_char n]"
  by (subst dec_nat.simps) simp

lemma dec_nat_large: "\<not> n < 10 \<Longrightarrow> dec_nat n = dec_nat (n div 10) @ [digit_char n]"
  by (subst dec_nat.simps) simp

lemma dec_nat_nonempty: "dec_nat n \<noteq> []"
  by (subst dec_nat.simps) simp

lemma is_digit_dec_nat: "list_all is_digit (dec_nat n)"
proof (induction n rule: dec_nat.induct)
  case (1 n)
  show ?case
  proof (cases "n < 10")
    case True
    then show ?thesis by (simp add: dec_nat_small is_digit_digit_char)
  next
    case False
    with "1" show ?thesis by (simp add: dec_nat_large is_digit_digit_char)
  qed
qed

lemma nat_of_digits_snoc: "nat_of_digits (ds @ [d]) = 10 * nat_of_digits ds + digit_val d"
  by (simp add: nat_of_digits_def)

lemma nat_of_digits_dec_nat: "nat_of_digits (dec_nat n) = n"
proof (induction n rule: dec_nat.induct)
  case (1 n)
  show ?case
  proof (cases "n < 10")
    case True
    then show ?thesis
      by (simp add: dec_nat_small nat_of_digits_def digit_val_digit_char)
  next
    case False
    with "1" have "nat_of_digits (dec_nat (n div 10)) = n div 10" by simp
    with False show ?thesis
      by (simp add: dec_nat_large nat_of_digits_snoc digit_val_digit_char)
  qed
qed

lemma dec_nat_no_leading_zero: "1 < length (dec_nat n) \<Longrightarrow> hd (dec_nat n) \<noteq> CHR ''0''"
proof (induction n rule: dec_nat.induct)
  case (1 n)
  show ?case
  proof (cases "n < 10")
    case True
    then have "dec_nat n = [digit_char n]" by (rule dec_nat_small)
    with "1.prems" show ?thesis by simp
  next
    case False
    then have "dec_nat n = dec_nat (n div 10) @ [digit_char n]" by (rule dec_nat_large)
    then have "hd (dec_nat n) = hd (dec_nat (n div 10) @ [digit_char n])" by (rule arg_cong)
    also have "\<dots> = hd (dec_nat (n div 10))" by (rule hd_append2) (rule dec_nat_nonempty)
    finally have hd: "hd (dec_nat n) = hd (dec_nat (n div 10))" .
    show ?thesis
    proof (cases "n div 10 < 10")
      case True
      then have one: "dec_nat (n div 10) = [digit_char (n div 10)]" by (rule dec_nat_small)
      from False have "n div 10 \<noteq> 0" by simp
      with True have nz: "(n div 10) mod 10 \<noteq> 0" by simp
      have "digit_char (n div 10) \<noteq> CHR ''0''"
      proof
        assume "digit_char (n div 10) = CHR ''0''"
        then have "(n div 10) mod 10 = 0" by (rule digit_char_zero)
        with nz show False by contradiction
      qed
      then show ?thesis unfolding hd one by simp
    next
      case big: False
      then have two: "dec_nat (n div 10) = dec_nat (n div 10 div 10) @ [digit_char (n div 10)]"
        by (rule dec_nat_large)
      have "dec_nat (n div 10 div 10) \<noteq> []" by (rule dec_nat_nonempty)
      then have "1 < length (dec_nat (n div 10 div 10) @ [digit_char (n div 10)])"
        by (cases "dec_nat (n div 10 div 10)") simp_all
      then have "1 < length (dec_nat (n div 10))" unfolding two [symmetric] .
      with False have "hd (dec_nat (n div 10)) \<noteq> CHR ''0''" by (rule "1.IH")
      then show ?thesis unfolding hd .
    qed
  qed
qed

lemma takeWhile_digits:
  "list_all is_digit ds \<Longrightarrow> r = [] \<or> \<not> is_digit (hd r) \<Longrightarrow> takeWhile is_digit (ds @ r) = ds"
  by (induction ds) (cases r, simp_all)

lemma dropWhile_digits:
  "list_all is_digit ds \<Longrightarrow> r = [] \<or> \<not> is_digit (hd r) \<Longrightarrow> dropWhile is_digit (ds @ r) = r"
  by (induction ds) (cases r, simp_all)

lemma parse_number_digits:
  assumes "n \<le> 9007199254740991" and "number_ends r"
  shows "takeWhile is_digit (dec_nat n @ r) = dec_nat n"
    and "dropWhile is_digit (dec_nat n @ r) = r"
    and "\<not> (hd (dec_nat n) = CHR ''0'' \<and> 1 < length (dec_nat n))"
    and "\<not> 9007199254740991 < nat_of_digits (dec_nat n)"
    and "\<not> (r \<noteq> [] \<and> hd r \<in> set ''.eE'')"
    and "hd (dec_nat n) \<noteq> CHR ''-''"
proof -
  from assms(2) have r: "r = [] \<or> \<not> is_digit (hd r)" by (auto simp add: number_ends_def)
  then show "takeWhile is_digit (dec_nat n @ r) = dec_nat n"
    by (simp add: takeWhile_digits is_digit_dec_nat)
  from r show "dropWhile is_digit (dec_nat n @ r) = r"
    by (simp add: dropWhile_digits is_digit_dec_nat)
  show "\<not> (hd (dec_nat n) = CHR ''0'' \<and> 1 < length (dec_nat n))"
    using dec_nat_no_leading_zero [of n] by auto
  show "\<not> 9007199254740991 < nat_of_digits (dec_nat n)"
    using assms(1) by (simp add: nat_of_digits_dec_nat)
  show "\<not> (r \<noteq> [] \<and> hd r \<in> set ''.eE'')"
    using assms(2) by (auto simp add: number_ends_def)
  have "is_digit (hd (dec_nat n))"
    using is_digit_dec_nat [of n] dec_nat_nonempty [of n] by (cases "dec_nat n") simp_all
  then show "hd (dec_nat n) \<noteq> CHR ''-''" by (auto simp add: is_digit_def)
qed

lemma parse_number_dec_int:
  assumes "\<bar>i\<bar> \<le> 9007199254740991" and "number_ends r"
  shows "parse_number (dec_int i @ r) = Inr (JNum i, r)"
proof (cases "i < 0")
  case True
  define n where "n = nat (- i)"
  from True assms(1) have n: "n \<le> 9007199254740991" and i: "i = - int n"
    by (simp_all add: n_def)
  from True have shape: "dec_int i = CHR ''-'' # dec_nat n" by (simp add: dec_int_def n_def)
  show ?thesis
    unfolding shape unfolding parse_number_def using parse_number_digits [OF n assms(2)]
    by (simp add: Let_def dec_nat_nonempty nat_of_digits_dec_nat i)
next
  case False
  define n where "n = nat i"
  from False assms(1) have n: "n \<le> 9007199254740991" and i: "i = int n"
    by (simp_all add: n_def)
  from False have shape: "dec_int i = dec_nat n" by (simp add: dec_int_def n_def)
  have hd: "hd (dec_nat n @ r) = hd (dec_nat n)" by (simp add: dec_nat_nonempty)
  show ?thesis
    unfolding shape unfolding parse_number_def using parse_number_digits [OF n assms(2)] hd
    by (simp add: Let_def dec_nat_nonempty nat_of_digits_dec_nat i)
qed


lemma hex_cases:
  "k < 16 \<Longrightarrow> k = 0 \<or> k = 1 \<or> k = 2 \<or> k = 3 \<or> k = 4 \<or> k = 5 \<or> k = 6 \<or> k = 7 \<or> k = 8 \<or>
     k = 9 \<or> k = 10 \<or> k = 11 \<or> k = 12 \<or> k = 13 \<or> k = 14 \<or> k = (15::nat)"
  by arith

lemma hex_val_hex_digit: "hex_val (hex_digit n) = Some (n mod 16)"
proof -
  have "n mod 16 < 16" by simp
  from hex_cases [OF this] show ?thesis
    by (auto simp add: hex_digit_def hex_val_def)
qed

lemma hex_val_zero: "hex_val (CHR ''0'') = Some 0"
  by (simp add: hex_val_def)

lemma parse_chars_control:
  assumes "(of_char c :: nat) < 32"
  shows "parse_chars (backslash # ''u00'' @ hex_byte (of_char c) @ rest) = cons_char c (parse_chars rest)"
proof -
  let ?n = "of_char c :: nat"
  from assms have "16 * ((?n div 16) mod 16) + ?n mod 16 = ?n" by simp
  then have "char_of (16 * ((?n div 16) mod 16) + ?n mod 16) = c" by simp
  then show ?thesis
    by (simp add: hex_byte_def hex_val_hex_digit hex_val_zero dquote_def backslash_def)
qed

lemma parse_chars_quote_unit:
  "parse_chars (quote_unit c @ rest) = cons_char c (parse_chars rest)"
proof -
  consider (bs) "c = CHR 0x08" | (tab) "c = CHR 0x09" | (nl) "c = CHR 0x0A" | (ff) "c = CHR 0x0C"
    | (cr) "c = CHR 0x0D" | (dq) "c = dquote" | (bsl) "c = backslash"
    | (ctl) "c \<notin> {CHR 0x08, CHR 0x09, CHR 0x0A, CHR 0x0C, CHR 0x0D, dquote, backslash}"
        "(of_char c :: nat) < 32"
    | (lit) "c \<notin> {CHR 0x08, CHR 0x09, CHR 0x0A, CHR 0x0C, CHR 0x0D, dquote, backslash}"
        "\<not> (of_char c :: nat) < 32"
    by auto
  then show ?thesis
  proof cases
    case bs
    then show ?thesis by (simp add: quote_unit_def unescape_def dquote_def backslash_def)
  next
    case tab
    then show ?thesis by (simp add: quote_unit_def unescape_def dquote_def backslash_def)
  next
    case nl
    then show ?thesis by (simp add: quote_unit_def unescape_def dquote_def backslash_def)
  next
    case ff
    then show ?thesis by (simp add: quote_unit_def unescape_def dquote_def backslash_def)
  next
    case cr
    then show ?thesis by (simp add: quote_unit_def unescape_def dquote_def backslash_def)
  next
    case dq
    then show ?thesis by (simp add: quote_unit_def unescape_def dquote_def backslash_def)
  next
    case bsl
    then show ?thesis by (simp add: quote_unit_def unescape_def dquote_def backslash_def)
  next
    case ctl
    then have "quote_unit c = backslash # ''u00'' @ hex_byte (of_char c)"
      by (simp add: quote_unit_def)
    with parse_chars_control [OF ctl(2), of rest] show ?thesis by simp
  next
    case lit
    then have "quote_unit c = [c]" by (simp add: quote_unit_def)
    with lit show ?thesis by simp
  qed
qed

lemma parse_chars_quoted:
  "parse_chars (concat (map quote_unit s) @ dquote # r) = Inr (s, r)"
proof (induction s)
  case Nil
  show ?case by simp
next
  case (Cons c s)
  have "parse_chars (concat (map quote_unit (c # s)) @ dquote # r) =
      parse_chars (quote_unit c @ (concat (map quote_unit s) @ dquote # r))" by simp
  also have "\<dots> = cons_char c (parse_chars (concat (map quote_unit s) @ dquote # r))"
    by (rule parse_chars_quote_unit)
  also have "\<dots> = Inr (c # s, r)" by (simp add: Cons.IH cons_char_def)
  finally show ?case .
qed


lemma obj_insert_index_last:
  "(\<forall>p \<in> set ob. is_array_index (fst p) \<and> nat_of_digits (fst p) < nat_of_digits k) \<Longrightarrow>
   obj_insert_index k v ob = ob @ [(k, v)]"
  by (induction ob) auto

lemma obj_define_last:
  assumes "\<forall>p \<in> set ob. js_precedes (fst p) k"
  shows "obj_define ob k v = ob @ [(k, v)]"
proof -
  from assms have fresh: "k \<notin> fst ` set ob" by (auto simp add: js_precedes_def)
  show ?thesis
  proof (cases "is_array_index k")
    case True
    with assms have "\<forall>p \<in> set ob. is_array_index (fst p) \<and> nat_of_digits (fst p) < nat_of_digits k"
      by (auto simp add: js_precedes_def)
    then have "obj_insert_index k v ob = ob @ [(k, v)]" by (rule obj_insert_index_last)
    with fresh True show ?thesis by (simp add: obj_define_def)
  next
    case False
    with fresh show ?thesis by (simp add: obj_define_def)
  qed
qed

lemma fold_obj_define_ordered:
  "sorted_wrt js_precedes (map fst (ob @ ps)) \<Longrightarrow>
   fold (\<lambda>(k, v) ob. obj_define ob k v) ps ob = ob @ ps"
proof (induction ps arbitrary: ob)
  case Nil
  show ?case by simp
next
  case (Cons p ps)
  obtain k v where p: "p = (k, v)" by (cases p)
  from Cons.prems have "\<forall>q \<in> set ob. js_precedes (fst q) k"
    unfolding p by (auto simp add: sorted_wrt_append)
  then have one: "obj_define ob k v = ob @ [(k, v)]" by (rule obj_define_last)
  from Cons.prems have "sorted_wrt js_precedes (map fst ((ob @ [(k, v)]) @ ps))"
    unfolding p by simp
  then have "fold (\<lambda>(k, v) ob. obj_define ob k v) ps (ob @ [(k, v)]) = (ob @ [(k, v)]) @ ps"
    by (rule Cons.IH)
  with one show ?case unfolding p by simp
qed

lemma skip_ws_keep: "\<not> is_ws c \<Longrightarrow> skip_ws (c # s) = c # s"
  by (simp add: skip_ws_def)

lemma is_digit_not_ws: "is_digit c \<Longrightarrow> \<not> is_ws c"
  by (auto simp add: is_digit_def is_ws_def)

lemma dec_int_first:
  "\<exists>c s. dec_int i = c # s \<and> (c = CHR ''-'' \<or> is_digit c)"
proof (cases "i < 0")
  case True
  then show ?thesis by (simp add: dec_int_def)
next
  case False
  obtain c s where cs: "dec_nat (nat i) = c # s"
    using dec_nat_nonempty [of "nat i"] by (cases "dec_nat (nat i)") auto
  with is_digit_dec_nat [of "nat i"] have "is_digit c" by simp
  with False cs show ?thesis by (simp add: dec_int_def)
qed

lemma value_start_facts:
  "value_start c \<Longrightarrow> \<not> is_ws c \<and> c \<noteq> CHR '']'' \<and> c \<noteq> CHR ''}''"
  by (auto simp add: value_start_def is_ws_def is_digit_def dquote_def)

lemma stringify_first: "\<exists>c s. JSON_stringify v = c # s \<and> value_start c"
proof (cases v)
  case (JNum i)
  with dec_int_first [of i] show ?thesis by (auto simp add: value_start_def)
next
  case (JStr s)
  then show ?thesis by (simp add: quote_def value_start_def)
qed (simp_all add: value_start_def)


lemma number_ends_sep [simp]:
  "number_ends (CHR '','' # r)" "number_ends (CHR '']'' # r)" "number_ends (CHR ''}'' # r)"
  "number_ends []"
  by (simp_all add: number_ends_def is_digit_def)

lemma parse_value_null: "parse_value (Suc m) (''null'' @ r) = Inr (JNull, r)"
  by (simp add: skip_ws_def is_ws_def expect_def)

lemma parse_value_bool:
  "parse_value (Suc m) ((if b then ''true'' else ''false'') @ r) = Inr (JBool b, r)"
  by (simp add: skip_ws_def is_ws_def expect_def)

lemma parse_value_string: "parse_value (Suc m) (quote s @ r) = Inr (JStr s, r)"
  by (simp add: quote_def skip_ws_def is_ws_def dquote_def parse_chars_quoted [unfolded dquote_def])

lemma parse_value_number:
  assumes "\<bar>i\<bar> \<le> 9007199254740991" and "number_ends r"
  shows "parse_value (Suc m) (dec_int i @ r) = Inr (JNum i, r)"
proof -
  obtain c s where cs: "dec_int i = c # s" and c: "c = CHR ''-'' \<or> is_digit c"
    using dec_int_first [of i] by blast
  from c have keep: "skip_ws (c # s @ r) = c # s @ r"
    by (auto simp add: skip_ws_def is_ws_def is_digit_def)
  from c have other: "c \<noteq> CHR ''n''" "c \<noteq> CHR ''t''" "c \<noteq> CHR ''f''" "c \<noteq> dquote"
    "c \<noteq> CHR ''[''" "c \<noteq> CHR ''{''"
    by (auto simp add: is_digit_def dquote_def)
  have "parse_value (Suc m) (c # s @ r) = parse_number (c # s @ r)"
    using keep other c by simp
  also have "\<dots> = Inr (JNum i, r)"
    using parse_number_dec_int [OF assms] cs by simp
  finally show ?thesis using cs by simp
qed

lemma parse_elements_join:
  assumes elem: "\<And>v r n. v \<in> set vs \<Longrightarrow> number_ends r \<Longrightarrow> length (JSON_stringify v) < n \<Longrightarrow>
                   parse_value n (JSON_stringify v @ r) = Inr (v, r)"
    and "vs \<noteq> []" and "length (join '','' (map JSON_stringify vs)) + 2 \<le> m"
  shows "parse_elements m (join '','' (map JSON_stringify vs) @ CHR '']'' # r) = Inr (vs, r)"
  using assms
proof (induction vs arbitrary: m)
  case Nil
  then show ?case by simp
next
  case (Cons v vs)
  from Cons.prems(3) obtain m' where m: "m = Suc m'" by (cases m) auto
  show ?case
  proof (cases vs)
    case Nil
    with Cons.prems(3) m have "length (JSON_stringify v) < m'" by simp
    then have "parse_value m' (JSON_stringify v @ CHR '']'' # r) = Inr (v, CHR '']'' # r)"
      by (intro Cons.prems(1)) simp_all
    with Nil m show ?thesis by (simp add: skip_ws_def is_ws_def)
  next
    case (Cons w ws)
    let ?rest = "join '','' (map JSON_stringify vs) @ CHR '']'' # r"
    from Cons Cons.prems(3) m have len: "length (JSON_stringify v) < m'"
      and more: "length (join '','' (map JSON_stringify vs)) + 2 \<le> m'"
      by simp_all
    from len have one: "parse_value m' (JSON_stringify v @ CHR '','' # ?rest) = Inr (v, CHR '','' # ?rest)"
      by (intro Cons.prems(1)) simp_all
    have "parse_elements m' ?rest = Inr (vs, r)"
    proof (rule Cons.IH)
      show "vs \<noteq> []" using Cons by simp
      show "length (join '','' (map JSON_stringify vs)) + 2 \<le> m'" by (rule more)
      show "parse_value n (JSON_stringify u @ r') = Inr (u, r')"
        if "u \<in> set vs" "number_ends r'" "length (JSON_stringify u) < n" for u r' n
        using that by (intro Cons.prems(1)) simp_all
    qed
    with one Cons m show ?thesis by (simp add: skip_ws_def is_ws_def)
  qed
qed


lemma parse_members_join:
  assumes elem: "\<And>p r n. p \<in> set ps \<Longrightarrow> number_ends r \<Longrightarrow> length (JSON_stringify (snd p)) < n \<Longrightarrow>
                   parse_value n (JSON_stringify (snd p) @ r) = Inr (snd p, r)"
    and "ps \<noteq> []"
    and "length (join '','' (map (\<lambda>p. quote (fst p) @ '':'' @ JSON_stringify (snd p)) ps)) + 2 \<le> m"
  shows "parse_members m
           (join '','' (map (\<lambda>p. quote (fst p) @ '':'' @ JSON_stringify (snd p)) ps) @ CHR ''}'' # r) =
         Inr (ps, r)"
  using assms
proof (induction ps arbitrary: m)
  case Nil
  then show ?case by simp
next
  case (Cons p ps)
  obtain k v where p: "p = (k, v)" by (cases p)
  let ?member = "\<lambda>p. quote (fst p) @ '':'' @ JSON_stringify (snd p)"
  from Cons.prems(3) obtain m' where m: "m = Suc m'" by (cases m) auto
  have key: "parse_chars (concat (map quote_unit k) @ dquote # s) = Inr (k, s)" for s
    by (rule parse_chars_quoted)
  show ?case
  proof (cases ps)
    case Nil
    with Cons.prems(3) m p have "length (JSON_stringify v) < m'" by simp
    then have "parse_value m' (JSON_stringify v @ CHR ''}'' # r) = Inr (v, CHR ''}'' # r)"
      using Cons.prems(1) [of p "CHR ''}'' # r" m'] p by simp
    with Nil m p key show ?thesis
      by (simp add: quote_def skip_ws_def is_ws_def dquote_def)
  next
    case (Cons q qs)
    let ?rest = "join '','' (map ?member ps) @ CHR ''}'' # r"
    from Cons Cons.prems(3) m p have len: "length (JSON_stringify v) < m'"
      and more: "length (join '','' (map ?member ps)) + 2 \<le> m'"
      by simp_all
    from len have one: "parse_value m' (JSON_stringify v @ CHR '','' # ?rest) = Inr (v, CHR '','' # ?rest)"
      using Cons.prems(1) [of p "CHR '','' # ?rest" m'] p by simp
    have "parse_members m' ?rest = Inr (ps, r)"
    proof (rule Cons.IH)
      show "ps \<noteq> []" using Cons by simp
      show "length (join '','' (map ?member ps)) + 2 \<le> m'" by (rule more)
      show "parse_value n (JSON_stringify (snd u) @ r') = Inr (snd u, r')"
        if "u \<in> set ps" "number_ends r'" "length (JSON_stringify (snd u)) < n" for u r' n
        using that by (intro Cons.prems(1)) simp_all
    qed
    with one Cons m p key show ?thesis
      by (simp add: quote_def skip_ws_def is_ws_def dquote_def)
  qed
qed

lemma parse_value_stringify:
  "representable v \<Longrightarrow> number_ends r \<Longrightarrow> length (JSON_stringify v) < n \<Longrightarrow>
   parse_value n (JSON_stringify v @ r) = Inr (v, r)"
proof (induction v arbitrary: r n)
  case JNull
  then obtain m where "n = Suc m" by (cases n) auto
  then show ?case by (simp only: JSON_stringify.simps parse_value_null)
next
  case (JBool b)
  then obtain m where "n = Suc m" by (cases n) auto
  then show ?case by (simp only: JSON_stringify.simps parse_value_bool)
next
  case (JNum i)
  then obtain m where n: "n = Suc m" by (cases n) auto
  from JNum.prems(1) have "\<bar>i\<bar> \<le> 9007199254740991" by simp
  from parse_value_number [OF this JNum.prems(2), of m] show ?case
    unfolding n by (simp only: JSON_stringify.simps)
next
  case (JStr s)
  then obtain m where "n = Suc m" by (cases n) auto
  then show ?case by (simp only: JSON_stringify.simps parse_value_string)
next
  case (JArr vs)
  from JArr.prems(3) obtain m where n: "n = Suc m" by (cases n) auto
  show ?case
  proof (cases vs)
    case Nil
    with n show ?thesis by (simp add: skip_ws_def is_ws_def dquote_def)
  next
    case (Cons w ws)
    let ?texts = "join '','' (map JSON_stringify vs)"
    obtain c s where first: "JSON_stringify w = c # s" and start: "value_start c"
      using stringify_first [of w] by blast
    from Cons first have texts: "\<exists>t. ?texts = c # t" by (cases ws) simp_all
    then obtain t where t: "?texts = c # t" ..
    from JArr.prems(3) n have fuel: "length ?texts + 2 \<le> m" by simp
    have "parse_elements m (?texts @ CHR '']'' # r) = Inr (vs, r)"
    proof (rule parse_elements_join)
      show "vs \<noteq> []" using Cons by simp
      show "length ?texts + 2 \<le> m" by (rule fuel)
      show "parse_value k (JSON_stringify u @ r') = Inr (u, r')"
        if "u \<in> set vs" "number_ends r'" "length (JSON_stringify u) < k" for u r' k
        using that JArr.prems(1) by (intro JArr.IH) simp_all
    qed
    with n t value_start_facts [OF start] show ?thesis
      by (simp add: skip_ws_def is_ws_def dquote_def)
  qed
next
  case (JObj ps)
  from JObj.prems(3) obtain m where n: "n = Suc m" by (cases n) auto
  let ?member = "\<lambda>p. quote (fst p) @ '':'' @ JSON_stringify (snd p)"
  from JObj.prems(1) have order: "fold (\<lambda>(k, v) ob. obj_define ob k v) ps [] = ps"
    using fold_obj_define_ordered [of "[]" ps] by simp
  show ?case
  proof (cases ps)
    case Nil
    with n show ?thesis by (simp add: skip_ws_def is_ws_def dquote_def)
  next
    case (Cons q qs)
    let ?texts = "join '','' (map ?member ps)"
    from Cons have "\<exists>t. ?texts = dquote # t" by (cases qs) (simp_all add: quote_def)
    then obtain t where t: "?texts = dquote # t" ..
    from JObj.prems(3) n have fuel: "length ?texts + 2 \<le> m" by simp
    have "parse_members m (?texts @ CHR ''}'' # r) = Inr (ps, r)"
    proof (rule parse_members_join)
      show "ps \<noteq> []" using Cons by simp
      show "length ?texts + 2 \<le> m" by (rule fuel)
      show "parse_value k (JSON_stringify (snd p) @ r') = Inr (snd p, r')"
        if "p \<in> set ps" "number_ends r'" "length (JSON_stringify (snd p)) < k" for p r' k
      proof -
        obtain a b where p: "p = (a, b)" by (cases p)
        from that(1) p have mem: "p \<in> set ps" and snd: "b \<in> Basic_BNFs.snds p" by simp_all
        from JObj.prems(1) that(1) p have rep: "representable b" by auto
        from that(3) p have len: "length (JSON_stringify b) < k" by simp
        have "parse_value k (JSON_stringify b @ r') = Inr (b, r')"
          using mem snd rep that(2) len by (rule JObj.IH)
        with p show ?thesis by simp
      qed
    qed
    with n t order show ?thesis
      by (simp add: skip_ws_def is_ws_def dquote_def)
  qed
qed

text \<open>Every representable value is JSON-encodable: its encoding decodes to the value.\<close>

lemma representable_json_encodable: "representable v \<Longrightarrow> json_encodable v"
  using parse_value_stringify [of v "[]" "2 * length (JSON_stringify v) + 2"]
  by (simp add: json_encodable_def JSON_parse_def skip_ws_def)


section \<open>Writes and round trips\<close>

lemma set_entry_stores:
  assumes keep: "primitives_keep_config B" and raw: "read_after_write B"
    and ok: "set_entry B k v duration this = (Inr True, this')"
  shows "fst (get B k this') =
           decoded_as_get this (if serialization this then JStr (JSON_stringify v) else v)"
proof -
  let ?v = "if serialization this then JStr (JSON_stringify v) else v"
  from ok have wr: "setValue B (buildKey this k) ?v duration this = (Inr True, this')"
    by (simp add: set_entry_def Let_def)
  from keep have "keeps_config (setValue B (buildKey this k) ?v duration)"
    by (simp add: primitives_keep_config_def)
  from keeps_configD [OF this, of this] wr
  have cfg: "keyPrefix this' = keyPrefix this" "serialization this' = serialization this" by simp_all
  then have key: "buildKey this' k = buildKey this k" by (simp add: buildKey_def)
  from raw wr have "fst (getValue B (buildKey this k) this') = Inr ?v"
    unfolding read_after_write_def by blast
  then obtain that where read: "getValue B (buildKey this' k) this' = (Inr ?v, that)"
    unfolding key by (cases "getValue B (buildKey this k) this'") auto
  from keep have "keeps_config (getValue B (buildKey this' k))"
    by (simp add: primitives_keep_config_def)
  from keeps_configD [OF this, of this'] read cfg
  have "serialization that = serialization this" by simp
  with read show ?thesis by (simp add: get_decoded decoded_as_get_def)
qed

lemma set_entry_round_trip:
  assumes "primitives_keep_config B" and "read_after_write B"
    and "set_entry B k v duration this = (Inr True, this')"
    and "serialization this \<longrightarrow> json_encodable v"
  shows "fst (get B k this') = Inr v"
  using set_entry_stores [OF assms(1-3)] assms(4)
  by (auto simp add: decoded_as_get_def json_encodable_def)

lemma memory_read_after_write: "read_after_write memory"
  by (auto simp add: read_after_write_def mem_setValue_def mem_getValue_def)

lemma memory_backend_primitives_keep_config: "primitives_keep_config memory"
  using memory_keeps_config by (simp add: backend_keeps_config_def)

text \<open>
  C8. Round trip through a backend that keeps the configuration and returns on a read what
  a successful write stored: after a successful \<open>set(k, v)\<close>, \<open>get(k)\<close> returns \<open>v\<close> when
  serialization is on and \<open>v\<close> is a JSON-encodable (representable) value, and returns \<open>v\<close>
  unmodified when serialization is off (for a string \<open>v\<close> in particular).
\<close>

theorem set_get_round_trip:
  assumes "primitives_keep_config B" and "read_after_write B"
    and "set_entry B k v duration this = (Inr True, this')"
  shows "(serialization this \<and> representable v \<longrightarrow> fst (get B k this') = Inr v) \<and>
         (\<not> serialization this \<longrightarrow> fst (get B k this') = Inr v)"
  using set_entry_round_trip [OF assms] representable_json_encodable [of v] by auto

theorem set_get_round_trip_witness:
  "set_entry memory (JStr ''k'') (JObj [(''a'', JNum 1)]) 0 empty_cache =
     (Inr True, empty_cache\<lparr>store := [''k'' \<mapsto> JStr (JSON_stringify (JObj [(''a'', JNum 1)]))]\<rparr>) \<and>
   serialization empty_cache \<and> representable (JObj [(''a'', JNum 1)]) \<and>
   fst (get memory (JStr ''k'')
         (empty_cache\<lparr>store := [''k'' \<mapsto> JStr (JSON_stringify (JObj [(''a'', JNum 1)]))]\<rparr>)) =
     Inr (JObj [(''a'', JNum 1)]) \<and>
   set_entry memory (JStr ''k'') (JStr ''raw'') 0 (empty_cache\<lparr>serialization := False\<rparr>) =
     (Inr True, empty_cache\<lparr>serialization := False, store := [''k'' \<mapsto> JStr ''raw'']\<rparr>) \<and>
   fst (get memory (JStr ''k'') (empty_cache\<lparr>serialization := False, store := [''k'' \<mapsto> JStr ''raw'']\<rparr>)) =
     Inr (JStr ''raw'')"
proof -
  have on: "set_entry memory (JStr ''k'') (JObj [(''a'', JNum 1)]) 0 empty_cache =
     (Inr True, empty_cache\<lparr>store := [''k'' \<mapsto> JStr (JSON_stringify (JObj [(''a'', JNum 1)]))]\<rparr>)"
    by (simp add: set_entry_def buildKey_def mem_setValue_def empty_cache_def)
  have off: "set_entry memory (JStr ''k'') (JStr ''raw'') 0 (empty_cache\<lparr>serialization := False\<rparr>) =
     (Inr True, empty_cache\<lparr>serialization := False, store := [''k'' \<mapsto> JStr ''raw'']\<rparr>)"
    by (simp add: set_entry_def buildKey_def mem_setValue_def empty_cache_def)
  have ser: "serialization empty_cache" "\<not> serialization (empty_cache\<lparr>serialization := False\<rparr>)"
    by (simp_all add: empty_cache_def)
  from set_get_round_trip [OF memory_backend_primitives_keep_config memory_read_after_write on]
    set_get_round_trip [OF memory_backend_primitives_keep_config memory_read_after_write off]
    on off ser
  show ?thesis by simp
qed

text \<open>
  C7, as amended. \<open>get\<close> on a key whose read returns the sentinel is the sentinel \<open>false\<close>.
  After a successful \<open>set(k, v)\<close> of a value other than the boolean \<open>false\<close> (representable
  when serialization is on), among them \<open>0\<close> and the empty string, \<open>get(k)\<close> returns \<open>v\<close> and
  so differs from the sentinel.
\<close>

theorem get_distinguishes_stored_value:
  assumes "primitives_keep_config B" and "read_after_write B"
    and "set_entry B k v duration this = (Inr True, this')"
    and "v \<noteq> JBool False" and "serialization this \<longrightarrow> representable v"
  shows "(fst (getValue B (buildKey that key) that) = Inr (JBool False) \<longrightarrow>
            fst (get B key that) = Inr (JBool False)) \<and>
         fst (get B k this') = Inr v \<and> fst (get B k this') \<noteq> Inr (JBool False)"
proof -
  from assms(5) have "serialization this \<longrightarrow> json_encodable v"
    using representable_json_encodable [of v] by simp
  from set_entry_round_trip [OF assms(1-3) this] assms(4) get_absent [of B that key]
  show ?thesis by simp
qed

theorem get_distinguishes_stored_value_witness:
  "fst (get memory (JStr ''missing'') empty_cache) = Inr (JBool False) \<and>
   set_entry memory (JStr ''k'') (JNum 0) 0 empty_cache =
     (Inr True, empty_cache\<lparr>store := [''k'' \<mapsto> JStr ''0'']\<rparr>) \<and>
   JNum 0 \<noteq> JBool False \<and> representable (JNum 0) \<and>
   fst (get memory (JStr ''k'') (empty_cache\<lparr>store := [''k'' \<mapsto> JStr ''0'']\<rparr>)) = Inr (JNum 0) \<and>
   fst (get memory (JStr ''k'') (empty_cache\<lparr>store := [''k'' \<mapsto> JStr ''0'']\<rparr>)) \<noteq> Inr (JBool False)"
proof -
  have ok: "set_entry memory (JStr ''k'') (JNum 0) 0 empty_cache =
     (Inr True, empty_cache\<lparr>store := [''k'' \<mapsto> JStr ''0'']\<rparr>)"
    by (simp add: set_entry_def buildKey_def mem_setValue_def empty_cache_def dec_int_def
        dec_nat.simps digit_char_def)
  have miss: "fst (getValue memory (buildKey empty_cache (JStr ''missing'')) empty_cache) = Inr (JBool False)"
    by (simp add: mem_getValue_def empty_cache_def)
  from get_distinguishes_stored_value
    [OF memory_backend_primitives_keep_config memory_read_after_write ok, of empty_cache "JStr ''missing''"]
    ok miss
  show ?thesis by simp
qed

text \<open>
  C7 as stated fails for the value \<open>false\<close>: \<open>set(k, false)\<close> succeeds and stores the text
  \<open>false\<close>, and \<open>get(k)\<close> then returns \<open>false\<close>, which is what \<open>get\<close> returns for a missing key.
\<close>

theorem get_confuses_stored_false:
  "set_entry memory (JStr ''k'') (JBool False) 0 empty_cache =
     (Inr True, empty_cache\<lparr>store := [''k'' \<mapsto> JStr ''false'']\<rparr>) \<and>
   fst (get memory (JStr ''k'') (empty_cache\<lparr>store := [''k'' \<mapsto> JStr ''false'']\<rparr>)) =
     Inr (JBool False) \<and>
   fst (get memory (JStr ''missing'') (empty_cache\<lparr>store := [''k'' \<mapsto> JStr ''false'']\<rparr>)) =
     Inr (JBool False)"
  by (simp add: set_entry_def get_def buildKey_def mem_setValue_def mem_getValue_def empty_cache_def
      JSON_parse_text_false)

text \<open>
  C10. When the read of the Storage Key of \<open>k\<close> returns the text \<open>false\<close> and serialization
  is on, \<open>exists(k)\<close> is true and \<open>get(k)\<close> is the absence sentinel \<open>false\<close>. The example
  reaches that state by \<open>set(k, false)\<close>.
\<close>

theorem exists_get_disagree:
  assumes "getValue B (buildKey this k) this = (Inr (JStr ''false''), this')"
    and "serialization this'"
  shows "fst (exists B k this) = Inr True \<and> fst (get B k this) = Inr (JBool False)"
  using assms by (simp add: exists_def get_def JSON_parse_text_false)

theorem exists_get_disagree_witness:
  "set_entry memory (JStr ''k'') (JBool False) 0 empty_cache =
     (Inr True, empty_cache\<lparr>store := [''k'' \<mapsto> JStr ''false'']\<rparr>) \<and>
   serialization (empty_cache\<lparr>store := [''k'' \<mapsto> JStr ''false'']\<rparr>) \<and>
   fst (exists memory (JStr ''k'') (empty_cache\<lparr>store := [''k'' \<mapsto> JStr ''false'']\<rparr>)) = Inr True \<and>
   fst (get memory (JStr ''k'') (empty_cache\<lparr>store := [''k'' \<mapsto> JStr ''false'']\<rparr>)) = Inr (JBool False)"
proof -
  have read: "getValue memory (buildKey (empty_cache\<lparr>store := [''k'' \<mapsto> JStr ''false'']\<rparr>) (JStr ''k''))
        (empty_cache\<lparr>store := [''k'' \<mapsto> JStr ''false'']\<rparr>) =
      (Inr (JStr ''false''), empty_cache\<lparr>store := [''k'' \<mapsto> JStr ''false'']\<rparr>)"
    by (simp add: buildKey_def mem_getValue_def empty_cache_def)
  have ser: "serialization (empty_cache\<lparr>store := [''k'' \<mapsto> JStr ''false'']\<rparr>)"
    by (simp add: empty_cache_def)
  have ok: "set_entry memory (JStr ''k'') (JBool False) 0 empty_cache =
     (Inr True, empty_cache\<lparr>store := [''k'' \<mapsto> JStr ''false'']\<rparr>)"
    by (simp add: set_entry_def buildKey_def mem_setValue_def empty_cache_def)
  from exists_get_disagree [OF read ser] ok ser show ?thesis by simp
qed


section \<open>The default batch writers\<close>

lemma waiting_write_fold:
  "map (\<lambda>j. case j of Suspended key outcome \<Rightarrow> key)
      (waiting (fst (fold (write_callback write duration) data (arr, this)))) =
   map (\<lambda>j. case j of Suspended key outcome \<Rightarrow> key) (waiting arr) @ map fst data"
proof (induction data arbitrary: arr this)
  case Nil
  show ?case by simp
next
  case (Cons p data)
  obtain key val where p: "p = (key, val)" by (cases p)
  obtain outcome that where call: "write key val duration this = (outcome, that)"
    by (cases "write key val duration this")
  with Cons.IH [of "arr\<lparr>waiting := waiting arr @ [Suspended key outcome]\<rparr>" that] show ?case
    unfolding p by (simp add: write_callback_def)
qed

lemma setValues_default_returns_empty:
  assumes "\<not> isArrayLike data"
  shows "\<exists>arr. fst (setValues_default P data duration this) = Inr arr \<and> failedKeys arr = [] \<and>
           map (\<lambda>j. case j of Suspended key outcome \<Rightarrow> key) (waiting arr) = map fst data"
  using assms failedKeys_write_fold [of "setValue P" duration data "\<lparr>failedKeys = [], waiting = []\<rparr>" this]
    waiting_write_fold [of "setValue P" duration data "\<lparr>failedKeys = [], waiting = []\<rparr>" this]
  by (simp add: setValues_default_def write_forEach_def case_prod_beta)

lemma addValues_default_returns_empty:
  assumes "\<not> isArrayLike data"
  shows "\<exists>arr. fst (addValues_default P data duration this) = Inr arr \<and> failedKeys arr = [] \<and>
           map (\<lambda>j. case j of Suspended key outcome \<Rightarrow> key) (waiting arr) = map fst data"
  using assms failedKeys_write_fold [of "addValue P" duration data "\<lparr>failedKeys = [], waiting = []\<rparr>" this]
    waiting_write_fold [of "addValue P" duration data "\<lparr>failedKeys = [], waiting = []\<rparr>" this]
  by (simp add: addValues_default_def write_forEach_def case_prod_beta)

text \<open>
  The default batch writers return their array empty, whatever the writes report: for every
  data mapping (that lodash walks by property) \<open>setValues\<close> and \<open>addValues\<close> return with
  no key in the array and one callback waiting for every entry, in the order of the entries.
\<close>

theorem default_writers_return_empty:
  assumes "\<not> isArrayLike data"
  shows "(\<exists>arr. fst (setValues_default P data duration this) = Inr arr \<and> failedKeys arr = [] \<and>
            map (\<lambda>j. case j of Suspended key outcome \<Rightarrow> key) (waiting arr) = map fst data) \<and>
         (\<exists>arr. fst (addValues_default P data duration this) = Inr arr \<and> failedKeys arr = [] \<and>
            map (\<lambda>j. case j of Suspended key outcome \<Rightarrow> key) (waiting arr) = map fst data)"
  using setValues_default_returns_empty [OF assms, of P duration this]
    addValues_default_returns_empty [OF assms, of P duration this]
  by (rule conjI)

theorem default_writers_return_empty_witness:
  "\<not> isArrayLike [(''a'', JStr ''5'')] \<and>
   fst (setValues_default memory [(''a'', JStr ''5'')] 0 empty_cache) =
     Inr \<lparr>failedKeys = [], waiting = [Suspended ''a'' (Inr True)]\<rparr> \<and>
   failedKeys \<lparr>failedKeys = [], waiting = [Suspended ''a'' (Inr True)]\<rparr> = []"
  using default_writers_return_empty [of "[(''a'', JStr ''5'')]" memory 0 empty_cache]
  by (simp add: isArrayLike_def setValues_default_def write_forEach_def write_callback_def
      mem_setValue_def)

text \<open>
  C1 fails on the code. The key \<open>a\<close> is in the cache, so \<open>addValue\<close> for it settles with
  \<open>false\<close>. \<open>multiAdd\<close> of \<open>a\<close> and \<open>b\<close> through the default \<open>addValues\<close> returns the array
  empty, with both callbacks still waiting; \<open>a\<close> is in the array only once they have run.
\<close>

theorem multiAdd_returns_before_outcomes:
  "fst (addValue memory ''a'' (JStr ''5'') 0 (empty_cache\<lparr>store := [''a'' \<mapsto> JStr ''1'']\<rparr>)) = Inr False \<and>
   items_forEach (empty_cache\<lparr>store := [''a'' \<mapsto> JStr ''1'']\<rparr>) [(''a'', JNum 5), (''b'', JNum 2)] =
     [(''a'', JStr ''5''), (''b'', JStr ''2'')] \<and>
   fst (multiAdd memory [(''a'', JNum 5), (''b'', JNum 2)] 0 (empty_cache\<lparr>store := [''a'' \<mapsto> JStr ''1'']\<rparr>)) =
     Inr \<lparr>failedKeys = [], waiting = [Suspended ''a'' (Inr False), Suspended ''b'' (Inr True)]\<rparr> \<and>
   settled \<lparr>failedKeys = [], waiting = [Suspended ''a'' (Inr False), Suspended ''b'' (Inr True)]\<rparr> = [''a'']"
proof -
  have data: "items_forEach (empty_cache\<lparr>store := [''a'' \<mapsto> JStr ''1'']\<rparr>) [(''a'', JNum 5), (''b'', JNum 2)] =
     [(''a'', JStr ''5''), (''b'', JStr ''2'')]"
    by (simp add: items_forEach_def buildKey_def empty_cache_def obj_put_def obj_define_def
        is_array_index_def is_digit_def dec_int_def dec_nat.simps digit_char_def)
  have plain: "\<not> isArrayLike [(''a'', JNum 5), (''b'', JNum 2)]"
    "\<not> isArrayLike [(''a'', JStr ''5''), (''b'', JStr ''2'')]"
    by (simp_all add: isArrayLike_def)
  have "fst (multiAdd memory [(''a'', JNum 5), (''b'', JNum 2)] 0 (empty_cache\<lparr>store := [''a'' \<mapsto> JStr ''1'']\<rparr>)) =
     Inr \<lparr>failedKeys = [], waiting = [Suspended ''a'' (Inr False), Suspended ''b'' (Inr True)]\<rparr>"
    unfolding multiAdd_def data using plain
    by (simp add: memory_def addValues_default_def write_forEach_def
        write_callback_def mem_addValue_def empty_cache_def)
  moreover have "settled \<lparr>failedKeys = [], waiting = [Suspended ''a'' (Inr False), Suspended ''b'' (Inr True)]\<rparr> = [''a'']"
    by (simp add: settled_def resume_def)
  moreover have "fst (addValue memory ''a'' (JStr ''5'') 0 (empty_cache\<lparr>store := [''a'' \<mapsto> JStr ''1'']\<rparr>)) = Inr False"
    by (simp add: mem_addValue_def empty_cache_def)
  ultimately show ?thesis using data by simp
qed


end
